theory Spec2Isabelle
  imports Main "HOL-Library.Sublist"
begin

section \<open>A shallow embedding of the mini Unix shell (main.cpp)\<close>

text \<open>
  The shell reads a line, splits it into tokens (\<open>tokenize\<close>), rewrites \<open>$NAME\<close>
  references (\<open>expand_env\<close>), separates redirections from arguments
  (\<open>parse_command\<close>) and runs the command as a built-in or as a child process
  (\<open>run_external\<close>). A \<open>std::string\<close> is a \<open>string\<close> (a list of 8-bit characters), a
  \<open>std::vector\<close> is a list, \<open>size_t\<close> indices are natural numbers (no index of a string
  that fits in memory wraps around).
\<close>

subsection \<open>Character classes of the C library, in the "C" locale\<close>

text \<open>
  The program never calls \<open>setlocale\<close>, so \<open>isspace\<close>, \<open>isalpha\<close> and \<open>isalnum\<close> are
  those of the "C" locale: space and the control characters 9 to 13; the 52 ASCII
  letters; the letters and the ten digits.
\<close>

definition isspace :: "char \<Rightarrow> bool" where
  "isspace c = (of_char c = (32::nat) \<or> ((9::nat) \<le> of_char c \<and> of_char c \<le> (13::nat)))"

definition isalpha :: "char \<Rightarrow> bool" where
  "isalpha c = (((65::nat) \<le> of_char c \<and> of_char c \<le> (90::nat))
              \<or> ((97::nat) \<le> of_char c \<and> of_char c \<le> (122::nat)))"

definition isdigit :: "char \<Rightarrow> bool" where
  "isdigit c = ((48::nat) \<le> of_char c \<and> of_char c \<le> (57::nat))"

definition isalnum :: "char \<Rightarrow> bool" where
  "isalnum c = (isalpha c \<or> isdigit c)"

text \<open>The three characters that cannot be written inside a string literal here.\<close>

definition dquote :: char where
  "dquote = CHR 0x22"

definition squote :: char where
  "squote = CHR 0x27"

definition backslash :: char where
  "backslash = CHR 0x5C"

subsection \<open>is_all_spaces (main.cpp, lines 12 to 15)\<close>

fun is_all_spaces :: "string \<Rightarrow> bool" where
  "is_all_spaces [] = True"
| "is_all_spaces (c # s) = (if \<not> isspace c then False else is_all_spaces s)"

subsection \<open>tokenize (lines 18 to 72)\<close>

text \<open>
  The \<open>for\<close> loop over \<open>i\<close>, with its four local variables as arguments. The loop
  reads \<open>line[i]\<close> and, behind a bounds check, \<open>line[i + 1]\<close>; the escape branch advances
  \<open>i\<close> twice (its own \<open>i++\<close> and the loop's). When the loop ends, a non-empty \<open>cur\<close>
  is the last token.
\<close>

function tokenize_loop ::
  "string \<Rightarrow> nat \<Rightarrow> string list \<Rightarrow> string \<Rightarrow> bool \<Rightarrow> bool \<Rightarrow> string list" where
  "tokenize_loop line i tokens cur in_single in_double =
     (if i < length line then
        (if in_double then
           (if line ! i = backslash \<and> i + 1 < length line
                 \<and> (line ! (i + 1) = dquote \<or> line ! (i + 1) = backslash)
            then tokenize_loop line (i + 2) tokens (cur @ [line ! (i + 1)]) in_single in_double
            else if line ! i = dquote
            then tokenize_loop line (i + 1) tokens cur in_single False
            else tokenize_loop line (i + 1) tokens (cur @ [line ! i]) in_single in_double)
         else if in_single then
           (if line ! i = squote
            then tokenize_loop line (i + 1) tokens cur False in_double
            else tokenize_loop line (i + 1) tokens (cur @ [line ! i]) in_single in_double)
         else if isspace (line ! i) then
           (if cur \<noteq> []
            then tokenize_loop line (i + 1) (tokens @ [cur]) [] in_single in_double
            else tokenize_loop line (i + 1) tokens cur in_single in_double)
         else if line ! i = dquote then tokenize_loop line (i + 1) tokens cur in_single True
         else if line ! i = squote then tokenize_loop line (i + 1) tokens cur True in_double
         else tokenize_loop line (i + 1) tokens (cur @ [line ! i]) in_single in_double)
      else (if cur \<noteq> [] then tokens @ [cur] else tokens))"
  by pat_completeness auto
termination
  by (relation "measure (\<lambda>(line, i, tokens, cur, in_single, in_double). length line - i)") auto

declare tokenize_loop.simps [simp del]

definition tokenize :: "string \<Rightarrow> string list" where
  "tokenize line = tokenize_loop line 0 [] [] False False"

subsection \<open>The process environment\<close>

text \<open>
  The environment is the list of (name, value) entries of the process; \<open>getenv\<close> returns
  the value of the first entry with the name, or a null pointer (\<open>None\<close>).
\<close>

type_synonym environ = "(string \<times> string) list"

definition getenv :: "environ \<Rightarrow> string \<Rightarrow> string option" where
  "getenv env name = map_of env name"

subsection \<open>expand_env_in_token and expand_env (lines 74 to 101)\<close>

text \<open>
  \<open>scan_name\<close> is the inner \<open>while\<close> loop, which moves \<open>j\<close> over letters, digits and
  underscores. \<open>substr tok pos n\<close> is \<open>tok.substr(pos, n)\<close> for \<open>pos\<close> within the string.
\<close>

function scan_name :: "string \<Rightarrow> nat \<Rightarrow> nat" where
  "scan_name tok j =
     (if j < length tok \<and> (isalnum (tok ! j) \<or> tok ! j = CHR ''_'')
      then scan_name tok (j + 1) else j)"
  by pat_completeness auto
termination
  by (relation "measure (\<lambda>(tok, j). length tok - j)") auto

declare scan_name.simps [simp del]

definition substr :: "string \<Rightarrow> nat \<Rightarrow> nat \<Rightarrow> string" where
  "substr tok pos n = take n (drop pos tok)"

function expand_loop :: "environ \<Rightarrow> string \<Rightarrow> nat \<Rightarrow> string \<Rightarrow> string" where
  "expand_loop env tok i out =
     (if i < length tok then
        (if tok ! i = CHR ''$'' then
           (if i + 1 < length tok \<and> (isalpha (tok ! (i + 1)) \<or> tok ! (i + 1) = CHR ''_'')
            then expand_loop env tok (scan_name tok (i + 2))
                   (case getenv env (substr tok (i + 1) (scan_name tok (i + 2) - (i + 1))) of
                      Some val \<Rightarrow> out @ val
                    | None \<Rightarrow> out)
            else expand_loop env tok (i + 1) (out @ ''$''))
         else expand_loop env tok (i + 1) (out @ [tok ! i]))
      else out)"
  by pat_completeness auto
termination
proof (relation "measure (\<lambda>(env, tok, i, out). length tok - i)")
  show "wf (measure (\<lambda>(env, tok, i, out). length tok - i))"
    by simp
next
  fix env :: environ and tok :: string and i :: nat and out :: string
  assume "i < length tok"
  have ge: "j \<le> scan_name tok j" for j
  proof (induction tok j rule: scan_name.induct)
    case (1 tok j)
    show ?case
    proof (cases "j < length tok \<and> (isalnum (tok ! j) \<or> tok ! j = CHR ''_'')")
      case True
      then have "scan_name tok j = scan_name tok (j + 1)"
        by (subst scan_name.simps) simp
      moreover from True "1.IH" have "j + 1 \<le> scan_name tok (j + 1)"
        by blast
      ultimately show ?thesis by linarith
    next
      case False
      then have "scan_name tok j = j"
        by (subst scan_name.simps) (simp only: if_False)
      then show ?thesis by simp
    qed
  qed
  from ge [of "i + 2"] \<open>i < length tok\<close>
  show "((env, tok, scan_name tok (i + 2),
           case getenv env (substr tok (i + 1) (scan_name tok (i + 2) - (i + 1))) of
             Some val \<Rightarrow> out @ val | None \<Rightarrow> out),
          env, tok, i, out) \<in> measure (\<lambda>(env, tok, i, out). length tok - i)"
    by simp
qed auto

declare expand_loop.simps [simp del]

definition expand_env_in_token :: "environ \<Rightarrow> string \<Rightarrow> string" where
  "expand_env_in_token env tok = expand_loop env tok 0 []"

definition expand_env :: "environ \<Rightarrow> string list \<Rightarrow> string list" where
  "expand_env env tokens = map (expand_env_in_token env) tokens"

subsection \<open>Command and parse_command (lines 103 to 137)\<close>

record Command =
  argv :: "string list"
  in_file :: string
  out_file :: string
  append_mode :: bool

text \<open>
  \<open>Command{}\<close>: empty argument vector, empty file names, \<open>append = false\<close>. The field
  \<open>append\<close> is named \<open>append_mode\<close> here (\<open>append\<close> is the list concatenation of HOL).
\<close>

definition empty_Command :: Command where
  "empty_Command = \<lparr>argv = [], in_file = [], out_file = [], append_mode = False\<rparr>"

text \<open>
  The loop of \<open>parse_command\<close> over the token vector: a redirection operator takes the
  next token as its file name and both are skipped (\<open>i++\<close> twice); with no next token the
  function returns \<open>false\<close> with the message in \<open>err\<close> (\<open>Inl\<close> here). Any other token is
  pushed onto \<open>argv\<close>.
\<close>

fun parse_loop :: "string list \<Rightarrow> Command \<Rightarrow> string + Command" where
  "parse_loop [] cmd = Inr cmd"
| "parse_loop (t # rest) cmd =
     (if t = ''<'' \<or> t = ''>'' \<or> t = ''>>'' then
        (case rest of
           [] \<Rightarrow> Inl (''Syntax error: missing file after redirection '' @ t)
         | file # rest' \<Rightarrow>
             parse_loop rest'
               (if t = ''<'' then cmd\<lparr>in_file := file\<rparr>
                else cmd\<lparr>out_file := file, append_mode := (t = ''>>'')\<rparr>))
      else parse_loop rest (cmd\<lparr>argv := argv cmd @ [t]\<rparr>))"


definition parse_command :: "string list \<Rightarrow> string + Command" where
  "parse_command tokens =
     (case parse_loop tokens empty_Command of
        Inl err \<Rightarrow> Inl err
      | Inr cmd \<Rightarrow> if argv cmd = [] then Inl ''Empty command'' else Inr cmd)"

subsection \<open>What the shell does to the outside: events and answers of the system\<close>

text \<open>
  The effects of the shell are recorded as a trace: text written to standard output and
  to standard error, a \<open>perror\<close> call with its prefix (the text after the prefix is the
  system's), a \<open>chdir\<close> call with its path, and a call of \<open>fork\<close>. The child's \<open>perror\<close>
  calls are in the same trace, since the child shares the error stream.

  What the system answers during one iteration of the loop is a record of outcomes: the
  two \<open>getcwd\<close> calls (prompt and \<open>pwd\<close>), \<open>chdir\<close>, \<open>fork\<close>, the \<open>open\<close> and \<open>dup2\<close> calls
  of the child, \<open>execvp\<close> (\<open>None\<close> when it returns, that is, fails; otherwise the way the
  loaded program ends) and \<open>waitpid\<close>. The theorems hold for every such record. A
  \<open>wait_status\<close> is what \<open>waitpid\<close> stores: \<open>WIFEXITED\<close> holds of \<open>Exited c\<close>, whose
  \<open>WEXITSTATUS\<close> is \<open>c\<close>, and not of \<open>Signaled n\<close>.
\<close>

datatype event =
    Stdout string
  | Stderr string
  | Perror string
  | Chdir string
  | Fork

datatype wait_status = Exited int | Signaled int

record os_outcome =
  prompt_cwd :: "string option"
  pwd_cwd :: "string option"
  chdir_ok :: bool
  fork_ok :: bool
  open_in_ok :: bool
  dup2_in_ok :: bool
  open_out_ok :: bool
  dup2_out_ok :: bool
  exec_result :: "wait_status option"
  waitpid_ok :: bool

record shell =
  history :: "string list"
  trace :: "event list"

definition emit :: "event list \<Rightarrow> shell \<Rightarrow> shell" where
  "emit evs s = s\<lparr>trace := trace s @ evs\<rparr>"

subsection \<open>make_prompt, print_help and the built-ins (lines 139 to 189)\<close>

definition make_prompt :: "os_outcome \<Rightarrow> string" where
  "make_prompt oc =
     (case prompt_cwd oc of
        Some buf \<Rightarrow> ''myshell:'' @ buf @ ''$ ''
      | None \<Rightarrow> ''myshell$ '')"

definition help_text :: string where
  "help_text =
     ''Builtins:\<newline>'' @
     ''  cd [path]    Change directory (cd without args goes to $HOME)\<newline>'' @
     ''  pwd          Print current directory\<newline>'' @
     ''  history      Show command history (in-memory)\<newline>'' @
     ''  help         Show this help\<newline>'' @
     ''  exit         Exit shell\<newline>'' @
     ''\<newline>Redirections:\<newline>'' @
     ''  cmd > out.txt     overwrite output\<newline>'' @
     ''  cmd >> out.txt    append output\<newline>'' @
     ''  cmd < in.txt      read input from file\<newline>''"

definition print_help :: "shell \<Rightarrow> shell" where
  "print_help s = emit [Stdout help_text] s"

definition builtin_cd :: "environ \<Rightarrow> os_outcome \<Rightarrow> string list \<Rightarrow> shell \<Rightarrow> int \<times> shell" where
  "builtin_cd env oc av s =
     (let path = (if length av < 2
                  then (case getenv env ''HOME'' of Some home \<Rightarrow> home | None \<Rightarrow> ''/'')
                  else av ! 1)
      in if \<not> chdir_ok oc then (1, emit [Chdir path, Perror ''cd''] s)
         else (0, emit [Chdir path] s))"

definition builtin_pwd :: "os_outcome \<Rightarrow> shell \<Rightarrow> int \<times> shell" where
  "builtin_pwd oc s =
     (case pwd_cwd oc of
        None \<Rightarrow> (1, emit [Perror ''pwd''] s)
      | Some buf \<Rightarrow> (0, emit [Stdout (buf @ ''\<newline>'')] s))"

definition is_builtin :: "string \<Rightarrow> bool" where
  "is_builtin name =
     (name = ''cd'' \<or> name = ''pwd'' \<or> name = ''exit'' \<or> name = ''help'' \<or> name = ''history'')"

subsection \<open>run_external (lines 192 to 237)\<close>

text \<open>
  \<open>child\<close> is the branch \<open>pid == 0\<close>: the \<open>perror\<close> calls it makes and the status with
  which the child process ends. Every \<open>_exit(127)\<close> is a normal termination with code
  127; when \<open>execvp\<close> succeeds the status is that of the loaded program.
\<close>

definition child :: "os_outcome \<Rightarrow> Command \<Rightarrow> event list \<times> wait_status" where
  "child oc cmd =
     (if in_file cmd \<noteq> [] \<and> \<not> open_in_ok oc then ([Perror ''open <''], Exited 127)
      else if in_file cmd \<noteq> [] \<and> \<not> dup2_in_ok oc then ([Perror ''dup2 <''], Exited 127)
      else if out_file cmd \<noteq> [] \<and> \<not> open_out_ok oc then ([Perror ''open >''], Exited 127)
      else if out_file cmd \<noteq> [] \<and> \<not> dup2_out_ok oc then ([Perror ''dup2 >''], Exited 127)
      else (case exec_result oc of
              None \<Rightarrow> ([Perror ''execvp''], Exited 127)
            | Some status \<Rightarrow> ([], status)))"

definition run_external :: "os_outcome \<Rightarrow> Command \<Rightarrow> shell \<Rightarrow> int \<times> shell" where
  "run_external oc cmd s =
     (if \<not> fork_ok oc then (1, emit [Fork, Perror ''fork''] s)
      else if \<not> waitpid_ok oc
      then (1, emit (Fork # fst (child oc cmd) @ [Perror ''waitpid'']) s)
      else (case snd (child oc cmd) of
              Exited code \<Rightarrow> (code, emit (Fork # fst (child oc cmd)) s)
            | Signaled sig \<Rightarrow> (1, emit (Fork # fst (child oc cmd)) s)))"

subsection \<open>main (lines 240 to 300)\<close>

text \<open>\<open>std::cout << (i + 1)\<close> writes the number in decimal.\<close>

function show_nat :: "nat \<Rightarrow> string" where
  "show_nat n =
     (if n < 10 then [''0123456789'' ! n]
      else show_nat (n div 10) @ [''0123456789'' ! (n mod 10)])"
  by pat_completeness auto
termination
  by (relation "measure (\<lambda>n. n)") auto

declare show_nat.simps [simp del]

text \<open>
  \<open>record_line\<close> is \<open>history.push_back(line)\<close> followed by the removal of the first
  entry when the size has passed 200. \<open>print_history\<close> is the loop of the \<open>history\<close>
  built-in.
\<close>

definition record_line :: "string \<Rightarrow> shell \<Rightarrow> shell" where
  "record_line line s =
     s\<lparr>history := (if length (history s @ [line]) > 200
                    then tl (history s @ [line]) else history s @ [line])\<rparr>"

definition print_history :: "shell \<Rightarrow> shell" where
  "print_history s =
     emit (map (\<lambda>i. Stdout (show_nat (i + 1) @ ''  '' @ history s ! i @ ''\<newline>''))
             [0 ..< length (history s)]) s"

text \<open>
  The dispatch on \<open>argv[0]\<close> at the end of the loop body. The Boolean is \<open>False\<close> when the
  loop is left (\<open>break\<close>). The statuses returned by \<open>builtin_cd\<close>, \<open>builtin_pwd\<close> and
  \<open>run_external\<close> are dropped, as in \<open>main\<close>.
\<close>

definition dispatch :: "environ \<Rightarrow> os_outcome \<Rightarrow> Command \<Rightarrow> shell \<Rightarrow> bool \<times> shell" where
  "dispatch env oc cmd s =
     (if argv cmd ! 0 = ''exit'' then (False, s)
      else if argv cmd ! 0 = ''cd'' then (True, snd (builtin_cd env oc (argv cmd) s))
      else if argv cmd ! 0 = ''pwd'' then (True, snd (builtin_pwd oc s))
      else if argv cmd ! 0 = ''help'' then (True, print_help s)
      else if argv cmd ! 0 = ''history'' then (True, print_history s)
      else (True, snd (run_external oc cmd s)))"

text \<open>The loop body once \<open>getline\<close> has returned a line.\<close>

definition loop_body :: "environ \<Rightarrow> os_outcome \<Rightarrow> string \<Rightarrow> shell \<Rightarrow> bool \<times> shell" where
  "loop_body env oc line s =
     (if is_all_spaces line then (True, s)
      else (case parse_command (expand_env env (tokenize line)) of
              Inl err \<Rightarrow>
                (True, if err \<noteq> ''Empty command'' then emit [Stderr (err @ ''\<newline>'')] s else s)
            | Inr cmd \<Rightarrow> dispatch env oc cmd (record_line line s)))"

text \<open>
  The loop over the lines of standard input, each with the answers of the system during
  its iteration; \<open>eof\<close> gives the answers at the iteration in which \<open>getline\<close> fails.
\<close>

fun main_loop :: "environ \<Rightarrow> (os_outcome \<times> string) list \<Rightarrow> os_outcome \<Rightarrow> shell \<Rightarrow> shell" where
  "main_loop env [] eof s = emit [Stdout (make_prompt eof), Stdout ''\<newline>''] s"
| "main_loop env ((oc, line) # rest) eof s =
     (case loop_body env oc line (emit [Stdout (make_prompt oc)] s) of
        (True, s') \<Rightarrow> main_loop env rest eof s'
      | (False, s') \<Rightarrow> s')"

definition main :: "environ \<Rightarrow> (os_outcome \<times> string) list \<Rightarrow> os_outcome \<Rightarrow> shell" where
  "main env input eof = main_loop env input eof \<lparr>history = [], trace = []\<rparr>"

section \<open>Auxiliary facts\<close>

subsection \<open>The quote characters\<close>

lemma quote_chars_distinct [simp]:
  "dquote \<noteq> backslash" "backslash \<noteq> dquote"
  "dquote \<noteq> squote" "squote \<noteq> dquote"
  "squote \<noteq> backslash" "backslash \<noteq> squote"
  by (simp_all add: dquote_def squote_def backslash_def)

lemma quote_chars_not_space [simp]:
  "\<not> isspace dquote" "\<not> isspace squote" "\<not> isspace backslash"
  by (simp_all add: isspace_def dquote_def squote_def backslash_def)

subsection \<open>The tokenizer on a suffix of the line\<close>

text \<open>
  The loop of the tokenizer only looks forward, so that its run from a position inside a
  line is its run from the start of the rest of the line. The steps of the loop follow
  in that form, then its runs over a stretch without a closing quote and over unquoted
  text.
\<close>

lemma tokenize_loop_shift:
  "tokenize_loop (pre @ rest) (length pre + k) tokens cur in_single in_double
     = tokenize_loop rest k tokens cur in_single in_double"
proof (induction "length rest - k" arbitrary: k tokens cur in_single in_double rule: less_induct)
  case less
  have IH1: "tokenize_loop (pre @ rest) (Suc (length pre + k)) ts c s d
               = tokenize_loop rest (Suc k) ts c s d" if "k < length rest" for ts c s d
    using less [of "Suc k" ts c s d] that by simp
  have IH2: "tokenize_loop (pre @ rest) (Suc (Suc (length pre + k))) ts c s d
               = tokenize_loop rest (Suc (Suc k)) ts c s d" if "k < length rest" for ts c s d
    using less [of "Suc (Suc k)" ts c s d] that by simp
  have nth1: "(pre @ rest) ! (length pre + k) = rest ! k"
    by (simp add: nth_append)
  have nth2: "(pre @ rest) ! Suc (length pre + k) = rest ! Suc k"
    by (simp add: nth_append)
  show ?case
    apply (subst tokenize_loop.simps [of rest k])
    apply (subst tokenize_loop.simps [of "pre @ rest" "length pre + k"])
    apply (simp add: nth1 nth2 IH1 IH2 cong: if_cong split del: if_split)
    done
qed

lemma tokenize_loop_Cons:
  "tokenize_loop (c # rest) (Suc k) tokens cur in_single in_double
     = tokenize_loop rest k tokens cur in_single in_double"
  using tokenize_loop_shift [of "[c]" rest k] by simp

lemma tokenize_loop_Nil:
  "tokenize_loop [] 0 tokens cur in_single in_double = (if cur \<noteq> [] then tokens @ [cur] else tokens)"
  by (subst tokenize_loop.simps) simp

lemma tokenize_loop_space:
  "isspace c \<Longrightarrow>
     tokenize_loop (c # rest) 0 tokens cur False False
       = (if cur \<noteq> [] then tokenize_loop rest 0 (tokens @ [cur]) [] False False
          else tokenize_loop rest 0 tokens cur False False)"
  by (subst tokenize_loop.simps) (simp add: tokenize_loop_Cons)

lemma tokenize_loop_plain:
  "\<not> isspace c \<Longrightarrow> c \<noteq> dquote \<Longrightarrow> c \<noteq> squote \<Longrightarrow>
     tokenize_loop (c # rest) 0 tokens cur False False
       = tokenize_loop rest 0 tokens (cur @ [c]) False False"
  by (subst tokenize_loop.simps) (simp add: tokenize_loop_Cons)

lemma tokenize_loop_open_single:
  "tokenize_loop (squote # rest) 0 tokens cur False False
     = tokenize_loop rest 0 tokens cur True False"
  by (subst tokenize_loop.simps) (simp add: tokenize_loop_Cons)

lemma tokenize_loop_open_double:
  "tokenize_loop (dquote # rest) 0 tokens cur False False
     = tokenize_loop rest 0 tokens cur False True"
  by (subst tokenize_loop.simps) (simp add: tokenize_loop_Cons)

lemma tokenize_loop_close_single:
  "tokenize_loop (squote # rest) 0 tokens cur True False
     = tokenize_loop rest 0 tokens cur False False"
  by (subst tokenize_loop.simps) (simp add: tokenize_loop_Cons)

lemma tokenize_loop_close_double:
  "tokenize_loop (dquote # rest) 0 tokens cur False True
     = tokenize_loop rest 0 tokens cur False False"
  by (subst tokenize_loop.simps) (simp add: tokenize_loop_Cons)

lemma tokenize_loop_in_single:
  "squote \<notin> set w \<Longrightarrow>
     tokenize_loop (w @ rest) 0 tokens cur True False
       = tokenize_loop rest 0 tokens (cur @ w) True False"
proof (induction w arbitrary: cur)
  case Nil
  show ?case by simp
next
  case (Cons c w)
  then have "c \<noteq> squote" "squote \<notin> set w"
    by auto
  then have "tokenize_loop (c # w @ rest) 0 tokens cur True False
               = tokenize_loop (w @ rest) 0 tokens (cur @ [c]) True False"
    by (subst tokenize_loop.simps) (simp add: tokenize_loop_Cons)
  with Cons.IH [OF \<open>squote \<notin> set w\<close>] show ?case by simp
qed

lemma tokenize_loop_in_double:
  "dquote \<notin> set w \<Longrightarrow> backslash \<notin> set w \<Longrightarrow>
     tokenize_loop (w @ rest) 0 tokens cur False True
       = tokenize_loop rest 0 tokens (cur @ w) False True"
proof (induction w arbitrary: cur)
  case Nil
  show ?case by simp
next
  case (Cons c w)
  then have "c \<noteq> dquote" "c \<noteq> backslash" and w: "dquote \<notin> set w" "backslash \<notin> set w"
    by auto
  then have "tokenize_loop (c # w @ rest) 0 tokens cur False True
               = tokenize_loop (w @ rest) 0 tokens (cur @ [c]) False True"
    by (subst tokenize_loop.simps) (simp add: tokenize_loop_Cons)
  with Cons.IH [OF w] show ?case by simp
qed

lemma tokenize_loop_word:
  "\<forall>c \<in> set w. \<not> isspace c \<and> c \<noteq> dquote \<and> c \<noteq> squote \<Longrightarrow>
     tokenize_loop (w @ rest) 0 tokens cur False False
       = tokenize_loop rest 0 tokens (cur @ w) False False"
proof (induction w arbitrary: cur)
  case Nil
  show ?case by simp
next
  case (Cons c w)
  then show ?case by (simp add: tokenize_loop_plain)
qed

lemma tokenize_loop_unquoted:
  "\<forall>c \<in> set pre. c \<noteq> dquote \<and> c \<noteq> squote \<Longrightarrow>
     \<exists>tokens' cur'. \<forall>rest.
        tokenize_loop (pre @ rest) 0 tokens cur False False
          = tokenize_loop rest 0 tokens' cur' False False"
proof (induction pre arbitrary: tokens cur)
  case Nil
  show ?case by auto
next
  case (Cons c pre)
  then have nq: "c \<noteq> dquote" "c \<noteq> squote" and
    rest: "\<forall>c \<in> set pre. c \<noteq> dquote \<and> c \<noteq> squote"
    by simp_all
  show ?case
  proof (cases "isspace c")
    case False
    from Cons.IH [OF rest, of tokens "cur @ [c]"] False nq show ?thesis
      by (simp add: tokenize_loop_plain)
  next
    case True
    show ?thesis
    proof (cases "cur = []")
      case True
      from Cons.IH [OF rest, of tokens cur] \<open>isspace c\<close> True show ?thesis
        by (simp add: tokenize_loop_space)
    next
      case False
      from Cons.IH [OF rest, of "tokens @ [cur]" "[]"] \<open>isspace c\<close> False show ?thesis
        by (simp add: tokenize_loop_space)
    qed
  qed
qed

lemma tokenize_all_spaces:
  "is_all_spaces line \<Longrightarrow> tokenize_loop line 0 [] [] False False = []"
proof (induction line)
  case Nil
  show ?case by (simp add: tokenize_loop_Nil)
next
  case (Cons c line)
  then have "isspace c" "is_all_spaces line"
    by (simp_all split: if_splits)
  with Cons.IH show ?case by (simp add: tokenize_loop_space)
qed

subsection \<open>The expander on a suffix of a token\<close>

text \<open>
  The loops of the expander only look forward: run from position \<open>length pre + k\<close> of
  \<open>pre @ rest\<close> they do what they do from position \<open>k\<close> of \<open>rest\<close>, and the output
  already produced stays in front.
\<close>

lemma scan_name_ge: "j \<le> scan_name tok j"
proof (induction tok j rule: scan_name.induct)
  case (1 tok j)
  show ?case
  proof (cases "j < length tok \<and> (isalnum (tok ! j) \<or> tok ! j = CHR ''_'')")
    case True
    then have "scan_name tok j = scan_name tok (j + 1)"
      by (subst scan_name.simps) simp
    moreover from True "1.IH" have "j + 1 \<le> scan_name tok (j + 1)"
      by blast
    ultimately show ?thesis by linarith
  next
    case False
    then have "scan_name tok j = j"
      by (subst scan_name.simps) (simp only: if_False)
    then show ?thesis by simp
  qed
qed

lemma scan_name_shift:
  "scan_name (pre @ rest) (length pre + k) = length pre + scan_name rest k"
proof (induction rest k rule: scan_name.induct)
  case (1 tok j)
  have nth1: "(pre @ tok) ! (length pre + j) = tok ! j"
    by (simp add: nth_append)
  show ?case
  proof (cases "j < length tok \<and> (isalnum (tok ! j) \<or> tok ! j = CHR ''_'')")
    case True
    then have a: "scan_name tok j = scan_name tok (j + 1)"
      by (subst scan_name.simps) simp
    from True have b: "scan_name (pre @ tok) (length pre + j)
                        = scan_name (pre @ tok) (length pre + j + 1)"
      by (subst scan_name.simps) (simp add: nth1)
    from "1.IH" [OF True] a b show ?thesis by (simp add: add.assoc)
  next
    case False
    then have a: "scan_name tok j = j"
      by (subst scan_name.simps) (simp only: if_False)
    from False have "\<not> (length pre + j < length (pre @ tok)
        \<and> (isalnum ((pre @ tok) ! (length pre + j)) \<or> (pre @ tok) ! (length pre + j) = CHR ''_''))"
      by (simp add: nth1)
    then have b: "scan_name (pre @ tok) (length pre + j) = length pre + j"
      by (subst scan_name.simps) (simp only: if_False)
    from a b show ?thesis by simp
  qed
qed

lemma scan_name_takeWhile:
  "scan_name tok 0 = length (takeWhile (\<lambda>c. isalnum c \<or> c = CHR ''_'') tok)"
proof (induction tok)
  case Nil
  show ?case by (subst scan_name.simps) simp
next
  case (Cons c r)
  have sh: "scan_name (c # r) (Suc 0) = Suc (scan_name r 0)"
    using scan_name_shift [of "[c]" r 0] by simp
  show ?case
    by (subst scan_name.simps) (simp add: sh Cons.IH)
qed

lemma scan_name_from:
  "scan_name (pre @ rest) (length pre)
     = length pre + length (takeWhile (\<lambda>c. isalnum c \<or> c = CHR ''_'') rest)"
  using scan_name_shift [of pre rest 0] by (simp add: scan_name_takeWhile)

lemma expand_loop_shift:
  "expand_loop env (pre @ rest) (length pre + k) out = expand_loop env rest k out"
proof (induction "length rest - k" arbitrary: k out rule: less_induct)
  case less
  have IH: "expand_loop env (pre @ rest) (length pre + k') out' = expand_loop env rest k' out'"
    if "k < k'" "k < length rest" for k' out'
    using less [of k' out'] that by simp
  have nth1: "(pre @ rest) ! (length pre + k) = rest ! k"
    by (simp add: nth_append)
  have nth2: "(pre @ rest) ! (length pre + k + 1) = rest ! (k + 1)"
    by (simp add: nth_append)
  have sn: "scan_name (pre @ rest) (length pre + k + 2) = length pre + scan_name rest (k + 2)"
    using scan_name_shift [of pre rest "k + 2"] by (simp add: add.assoc)
  have sub: "substr (pre @ rest) (length pre + k + 1) n = substr rest (k + 1) n" for n
    by (simp add: substr_def)
  have ge: "k + 2 \<le> scan_name rest (k + 2)"
    by (rule scan_name_ge)
  show ?case
  proof (cases "k < length rest")
    case False
    then show ?thesis
      by (simp add: expand_loop.simps [of env rest k] expand_loop.simps [of env "pre @ rest" "length pre + k"])
  next
    case True
    show ?thesis
    proof (cases "rest ! k = CHR ''$''")
      case False
      with True IH [of "k + 1"] show ?thesis
        by (simp add: expand_loop.simps [of env rest k] nth1
              expand_loop.simps [of env "pre @ rest" "length pre + k"])
    next
      case dollar: True
      show ?thesis
      proof (cases "k + 1 < length rest \<and> (isalpha (rest ! (k + 1)) \<or> rest ! (k + 1) = CHR ''_'')")
        case False
        with True dollar IH [of "k + 1"] show ?thesis
          by (auto simp add: expand_loop.simps [of env rest k] nth1
              expand_loop.simps [of env "pre @ rest" "length pre + k"] nth_append)
      next
        case var: True
        have l: "expand_loop env (pre @ rest) (length pre + k) out
                  = expand_loop env (pre @ rest) (length pre + scan_name rest (k + 2))
                      (case getenv env (substr rest (k + 1) (scan_name rest (k + 2) - (k + 1))) of
                         Some val \<Rightarrow> out @ val | None \<Rightarrow> out)"
          apply (subst expand_loop.simps)
          using True dollar var
          apply (simp only: nth1 nth2 sn sub length_append)
          apply (simp add: add.assoc)
          done
        have r: "expand_loop env rest k out
                  = expand_loop env rest (scan_name rest (k + 2))
                      (case getenv env (substr rest (k + 1) (scan_name rest (k + 2) - (k + 1))) of
                         Some val \<Rightarrow> out @ val | None \<Rightarrow> out)"
          apply (subst expand_loop.simps)
          using True dollar var
          apply simp
          done
        from ge have "k < scan_name rest (k + 2)" by simp
        from IH [OF this True] l r show ?thesis by simp
      qed
    qed
  qed
qed

lemma expand_loop_out:
  "expand_loop env tok i out = out @ expand_loop env tok i []"
proof (induction "length tok - i" arbitrary: i out rule: less_induct)
  case less
  have IH: "expand_loop env tok i' out' = out' @ expand_loop env tok i' []"
    if "i < i'" "i < length tok" for i' out'
    using less [of i' out'] that by simp
  show ?case
  proof (cases "i < length tok")
    case False
    then show ?thesis by (simp add: expand_loop.simps [of env tok i])
  next
    case True
    have ge: "i < scan_name tok (i + 2)"
      using scan_name_ge [of "i + 2" tok] by simp
    show ?thesis
      apply (subst (1 2) expand_loop.simps)
      apply (simp only: True if_True)
      apply (subst IH [OF ge True])
      apply (subst (2) IH [OF ge True])
      apply (subst IH [of "i + 1", OF _ True], simp)
      apply (subst (2) IH [of "i + 1", OF _ True], simp)
      apply (subst (3) IH [of "i + 1", OF _ True], simp)
      apply (subst (4) IH [of "i + 1", OF _ True], simp)
      apply (auto split: option.split)
      done
  qed
qed

lemma expand_loop_Cons:
  "expand_loop env (c # r) (Suc k) out = expand_loop env r k out"
  using expand_loop_shift [of env "[c]" r k out] by simp

lemma expand_token_Nil: "expand_env_in_token env [] = []"
  by (simp add: expand_env_in_token_def expand_loop.simps [of env "[]"])

lemma expand_token_char:
  assumes "c \<noteq> CHR ''$''"
  shows "expand_env_in_token env (c # r) = c # expand_env_in_token env r"
proof -
  have "expand_loop env (c # r) 0 [] = expand_loop env (c # r) (Suc 0) [c]"
    using assms by (subst expand_loop.simps) simp
  also have "\<dots> = expand_loop env r 0 [c]"
    by (rule expand_loop_Cons)
  also have "\<dots> = [c] @ expand_loop env r 0 []"
    by (rule expand_loop_out)
  finally show ?thesis by (simp add: expand_env_in_token_def)
qed

lemma expand_token_dollar:
  assumes "r = [] \<or> \<not> (isalpha (hd r) \<or> hd r = CHR ''_'')"
  shows "expand_env_in_token env (CHR ''$'' # r) = CHR ''$'' # expand_env_in_token env r"
proof -
  from assms
  have "\<not> (0 + 1 < length (CHR ''$'' # r)
          \<and> (isalpha ((CHR ''$'' # r) ! (0 + 1)) \<or> (CHR ''$'' # r) ! (0 + 1) = CHR ''_''))"
    by (cases r) auto
  then have "expand_loop env (CHR ''$'' # r) 0 [] = expand_loop env (CHR ''$'' # r) (0 + 1) ([] @ ''$'')"
    by (subst expand_loop.simps) (simp only: if_False, simp)
  also have "\<dots> = expand_loop env r 0 ''$''"
    using expand_loop_Cons [of env "CHR ''$''" r 0 "''$''"] by simp
  also have "\<dots> = ''$'' @ expand_loop env r 0 []"
    by (rule expand_loop_out)
  finally show ?thesis by (simp add: expand_env_in_token_def)
qed

lemma expand_token_var:
  assumes "isalpha a \<or> a = CHR ''_''"
  shows "expand_env_in_token env (CHR ''$'' # a # r)
           = (case getenv env (a # takeWhile (\<lambda>c. isalnum c \<or> c = CHR ''_'') r) of
                Some val \<Rightarrow> val | None \<Rightarrow> [])
             @ expand_env_in_token env (dropWhile (\<lambda>c. isalnum c \<or> c = CHR ''_'') r)"
proof -
  let ?P = "\<lambda>c. isalnum c \<or> c = CHR ''_''"
  let ?tok = "CHR ''$'' # a # r"
  let ?n = "length (takeWhile ?P r)"
  have sn: "scan_name ?tok (Suc (Suc 0)) = Suc (Suc ?n)"
    using scan_name_from [of "[CHR ''$'', a]" r] by simp
  have var: "substr ?tok (Suc 0) (Suc ?n) = a # takeWhile ?P r"
    by (simp add: substr_def takeWhile_eq_take [symmetric])
  have split: "?tok = (CHR ''$'' # a # takeWhile ?P r) @ dropWhile ?P r"
    by simp
  have "expand_loop env ?tok 0 []
          = expand_loop env ?tok (scan_name ?tok (0 + 2))
              (case getenv env (substr ?tok (0 + 1) (scan_name ?tok (0 + 2) - (0 + 1))) of
                 Some val \<Rightarrow> [] @ val | None \<Rightarrow> [])"
    using assms by (subst expand_loop.simps) simp
  also have "\<dots> = expand_loop env ?tok (2 + ?n)
              (case getenv env (a # takeWhile ?P r) of Some val \<Rightarrow> val | None \<Rightarrow> [])"
    by (simp add: sn var cong: option.case_cong)
  also have "\<dots> = expand_loop env (dropWhile ?P r) 0
              (case getenv env (a # takeWhile ?P r) of Some val \<Rightarrow> val | None \<Rightarrow> [])"
    using expand_loop_shift [of env "CHR ''$'' # a # takeWhile ?P r" "dropWhile ?P r" 0]
    by simp
  also have "\<dots> = (case getenv env (a # takeWhile ?P r) of Some val \<Rightarrow> val | None \<Rightarrow> [])
                   @ expand_loop env (dropWhile ?P r) 0 []"
    by (rule expand_loop_out)
  finally show ?thesis by (simp add: expand_env_in_token_def)
qed

lemma expand_token_no_dollar:
  "CHR ''$'' \<notin> set tok \<Longrightarrow> expand_env_in_token env tok = tok"
proof (induction tok)
  case Nil
  show ?case by (rule expand_token_Nil)
next
  case (Cons c tok)
  then have "c \<noteq> CHR ''$''" "expand_env_in_token env tok = tok"
    by auto
  then show ?case by (simp add: expand_token_char)
qed

subsection \<open>The scan of the parser\<close>

text \<open>
  A scan that has gone through a prefix of the tokens goes on with the rest; what it
  adds to \<open>argv\<close> are tokens of the vector, in order, none of them an operator.
\<close>

lemma parse_loop_append:
  "parse_loop pre c = Inr c' \<Longrightarrow> parse_loop (pre @ post) c = parse_loop post c'"
proof (induction pre c rule: parse_loop.induct)
  case (1 cmd)
  then show ?case by simp
next
  case (2 t rest cmd)
  show ?case
  proof (cases "t = ''<'' \<or> t = ''>'' \<or> t = ''>>''")
    case False
    with 2 show ?thesis by simp
  next
    case True
    show ?thesis
    proof (cases rest)
      case Nil
      with True "2.prems" show ?thesis by simp
    next
      case (Cons fname rest')
      with True "2.prems" "2.IH"(1) [OF True Cons] show ?thesis by simp
    qed
  qed
qed

lemma parse_loop_argv:
  "parse_loop ts c = Inr c' \<Longrightarrow>
     \<exists>args. argv c' = argv c @ args \<and> subseq args ts
        \<and> (\<forall>a \<in> set args. a \<noteq> ''<'' \<and> a \<noteq> ''>'' \<and> a \<noteq> ''>>'')"
proof (induction ts c rule: parse_loop.induct)
  case (1 cmd)
  then show ?case by simp
next
  case (2 t rest cmd)
  show ?case
  proof (cases "t = ''<'' \<or> t = ''>'' \<or> t = ''>>''")
    case False
    with "2.prems" have "parse_loop rest (cmd\<lparr>argv := argv cmd @ [t]\<rparr>) = Inr c'" by simp
    from "2.IH"(2) [OF False this] obtain args where
      a: "argv c' = argv (cmd\<lparr>argv := argv cmd @ [t]\<rparr>) @ args" "subseq args rest"
         "\<forall>a \<in> set args. a \<noteq> ''<'' \<and> a \<noteq> ''>'' \<and> a \<noteq> ''>>''"
      by blast
    show ?thesis
    proof (intro exI conjI)
      show "argv c' = argv cmd @ (t # args)" using a(1) by simp
      show "subseq (t # args) (t # rest)" using a(2) by simp
      show "\<forall>a \<in> set (t # args). a \<noteq> ''<'' \<and> a \<noteq> ''>'' \<and> a \<noteq> ''>>''"
        using a(3) False by simp
    qed
  next
    case True
    show ?thesis
    proof (cases rest)
      case Nil
      with True "2.prems" show ?thesis by simp
    next
      case (Cons fname rest')
      let ?c = "if t = ''<'' then cmd\<lparr>in_file := fname\<rparr>
                else cmd\<lparr>out_file := fname, append_mode := (t = ''>>'')\<rparr>"
      from True Cons "2.prems" have "parse_loop rest' ?c = Inr c'" by simp
      from "2.IH"(1) [OF True Cons this] obtain args where
        a: "argv c' = argv ?c @ args" "subseq args rest'"
           "\<forall>a \<in> set args. a \<noteq> ''<'' \<and> a \<noteq> ''>'' \<and> a \<noteq> ''>>''"
        by blast
      have "argv ?c = argv cmd" by simp
      moreover have "subseq args (t # fname # rest')"
        using a(2) by (intro list_emb_Cons)
      ultimately show ?thesis using a Cons by auto
    qed
  qed
qed

text \<open>The fields other than argv do not influence the scan.\<close>

lemma parse_loop_fields:
  "argv c1 = argv c2 \<Longrightarrow>
     map_sum (\<lambda>e. e) argv (parse_loop ts c1) = map_sum (\<lambda>e. e) argv (parse_loop ts c2)"
proof (induction ts c1 arbitrary: c2 rule: parse_loop.induct)
  case (1 cmd)
  then show ?case by simp
next
  case (2 t rest cmd)
  show ?case
  proof (cases "t = ''<'' \<or> t = ''>'' \<or> t = ''>>''")
    case False
    with "2.IH"(2) [OF False, of "c2\<lparr>argv := argv c2 @ [t]\<rparr>"] "2.prems" show ?thesis by simp
  next
    case True
    show ?thesis
    proof (cases rest)
      case Nil
      with True show ?thesis by simp
    next
      case (Cons fname rest')
      have "map_sum (\<lambda>e. e) argv (parse_loop rest'
              (if t = ''<'' then cmd\<lparr>in_file := fname\<rparr>
               else cmd\<lparr>out_file := fname, append_mode := (t = ''>>'')\<rparr>))
          = map_sum (\<lambda>e. e) argv (parse_loop rest'
              (if t = ''<'' then c2\<lparr>in_file := fname\<rparr>
               else c2\<lparr>out_file := fname, append_mode := (t = ''>>'')\<rparr>))"
        by (rule "2.IH"(1) [OF True Cons]) (simp add: "2.prems")
      with True Cons show ?thesis by (cases "t = ''<''") simp_all
    qed
  qed
qed

lemma parse_loop_error:
  "parse_loop ts c = Inl err \<Longrightarrow>
     \<exists>pre t c'. ts = pre @ [t] \<and> (t = ''<'' \<or> t = ''>'' \<or> t = ''>>'')
        \<and> parse_loop pre c = Inr c'
        \<and> err = ''Syntax error: missing file after redirection '' @ t"
proof (induction ts c rule: parse_loop.induct)
  case (1 cmd)
  then show ?case by simp
next
  case (2 t rest cmd)
  show ?case
  proof (cases "t = ''<'' \<or> t = ''>'' \<or> t = ''>>''")
    case False
    with "2.prems" have "parse_loop rest (cmd\<lparr>argv := argv cmd @ [t]\<rparr>) = Inl err" by simp
    from "2.IH"(2) [OF False this] obtain pre u c' where
      a: "rest = pre @ [u]" "u = ''<'' \<or> u = ''>'' \<or> u = ''>>''"
         "parse_loop pre (cmd\<lparr>argv := argv cmd @ [t]\<rparr>) = Inr c'"
         "err = ''Syntax error: missing file after redirection '' @ u"
      by blast
    from a(3) False have "parse_loop (t # pre) cmd = Inr c'" by simp
    with a(1,2,4) show ?thesis
      by (intro exI [of _ "t # pre"] exI [of _ u] exI [of _ c']) simp
  next
    case True
    show ?thesis
    proof (cases rest)
      case Nil
      with True "2.prems" show ?thesis
        by (intro exI [of _ "[]"] exI [of _ t] exI [of _ cmd]) auto
    next
      case (Cons fname rest')
      let ?c = "if t = ''<'' then cmd\<lparr>in_file := fname\<rparr>
                else cmd\<lparr>out_file := fname, append_mode := (t = ''>>'')\<rparr>"
      from True Cons "2.prems" have "parse_loop rest' ?c = Inl err" by simp
      from "2.IH"(1) [OF True Cons this] obtain pre u c' where
        a: "rest' = pre @ [u]" "u = ''<'' \<or> u = ''>'' \<or> u = ''>>''"
           "parse_loop pre ?c = Inr c'"
           "err = ''Syntax error: missing file after redirection '' @ u"
        by blast
      from a(3) True have "parse_loop (t # fname # pre) cmd = Inr c'" by simp
      with a(1,2,4) Cons show ?thesis
        by (intro exI [of _ "t # fname # pre"] exI [of _ u] exI [of _ c']) simp
    qed
  qed
qed

lemma expand_env_tokenize_blank:
  "is_all_spaces line \<Longrightarrow> parse_command (expand_env env (tokenize line)) = Inl ''Empty command''"
  by (simp add: tokenize_def tokenize_all_spaces expand_env_def parse_command_def empty_Command_def)



subsection \<open>The loop body and the history\<close>

text \<open>
  No branch of the dispatch touches the history, and only \<open>run_external\<close> calls \<open>fork\<close>. A
  blank line is parsed as an empty command. With at most 200 entries before, the history
  after a line is the last 200 entries of the old history followed by the line, if the
  line is parsed, and the old history otherwise; over a run of the loop, it is the last
  200 parsed lines among those read.
\<close>

lemma emit_fields [simp]:
  "history (emit evs s) = history s" "trace (emit evs s) = trace s @ evs"
  by (simp_all add: emit_def)

lemma builtin_cd_state:
  "history (snd (builtin_cd env oc av s)) = history s"
  "\<exists>evs. trace (snd (builtin_cd env oc av s)) = trace s @ evs \<and> Fork \<notin> set evs"
  by (simp_all add: builtin_cd_def Let_def)

lemma builtin_pwd_state:
  "history (snd (builtin_pwd oc s)) = history s"
  "\<exists>evs. trace (snd (builtin_pwd oc s)) = trace s @ evs \<and> Fork \<notin> set evs"
  by (simp_all add: builtin_pwd_def split: option.split)

lemma run_external_state:
  "history (snd (run_external oc cmd s)) = history s"
  "\<exists>evs. trace (snd (run_external oc cmd s)) = trace s @ Fork # evs"
  by (simp_all add: run_external_def split: wait_status.split)

lemma dispatch_history:
  "history (snd (dispatch env oc cmd s)) = history s"
  by (simp add: dispatch_def builtin_cd_state builtin_pwd_state run_external_state
        print_help_def print_history_def)

lemma loop_body_history:
  "history (snd (loop_body env oc line s))
     = (if isl (parse_command (expand_env env (tokenize line))) then history s
        else history (record_line line s))"
proof (cases "is_all_spaces line")
  case True
  then show ?thesis
    by (simp add: loop_body_def expand_env_tokenize_blank)
next
  case False
  then show ?thesis
    by (cases "parse_command (expand_env env (tokenize line))")
       (simp_all add: loop_body_def dispatch_history)
qed

lemma drop_last_append:
  "drop (length (drop (length xs - n) xs @ ys) - n) (drop (length xs - n) xs @ ys)
     = drop (length (xs @ ys) - n) (xs @ ys)"
proof (cases "length xs \<le> n")
  case True
  then show ?thesis by simp
next
  case False
  then have n: "n < length xs" by simp
  then have l: "length (drop (length xs - n) xs @ ys) - n = length ys" by simp
  have r: "length (xs @ ys) - n = (length xs - n) + length ys" using n by simp
  have c: "drop (length ys) (drop (length xs - n) xs) = drop (length xs - n) (drop (length ys) xs)"
    by (simp add: add.commute)
  show ?thesis
    unfolding l r using n by (simp add: c ac_simps)
qed

lemma tl_drop_200:
  "length xs = 200 \<Longrightarrow> tl (xs @ [y]) = drop (length (xs @ [y]) - 200) (xs @ [y])"
  by (cases xs) (simp_all add: drop_Suc)

lemma record_line_history:
  assumes "length (history s) \<le> 200"
  shows "history (record_line line s)
           = drop (length (history s @ [line]) - 200) (history s @ [line])"
proof (cases "length (history s) = 200")
  case True
  then show ?thesis
    using tl_drop_200 [of "history s" line] by (simp add: record_line_def)
next
  case False
  with assms show ?thesis by (simp add: record_line_def)
qed

lemma loop_body_recent:
  assumes "length (history s) \<le> 200"
  shows "history (snd (loop_body env oc line s))
           = drop (length (history s @ filter (\<lambda>l. \<not> isl (parse_command (expand_env env (tokenize l)))) [line]) - 200)
               (history s @ filter (\<lambda>l. \<not> isl (parse_command (expand_env env (tokenize l)))) [line])"
  using assms by (simp add: loop_body_history record_line_history)

lemma loop_body_bound:
  "length (history s) \<le> 200 \<Longrightarrow> length (history (snd (loop_body env oc line s))) \<le> 200"
  by (simp add: loop_body_history record_line_def)

lemma main_loop_history:
  "\<exists>k \<le> length inp.
     history (main_loop env inp eof s)
       = drop (length (history s @ filter (\<lambda>l. \<not> isl (parse_command (expand_env env (tokenize l))))
                                  (map snd (take k inp))) - 200)
           (history s @ filter (\<lambda>l. \<not> isl (parse_command (expand_env env (tokenize l))))
                          (map snd (take k inp)))"
  if "length (history s) \<le> 200"
  using that
proof (induction inp arbitrary: s)
  case Nil
  then show ?case by simp
next
  case (Cons a inp)
  obtain oc line where a: "a = (oc, line)" by (cases a)
  let ?ok = "\<lambda>l. \<not> isl (parse_command (expand_env env (tokenize l)))"
  let ?s0 = "emit [Stdout (make_prompt oc)] s"
  obtain go s' where lb: "loop_body env oc line ?s0 = (go, s')"
    by (cases "loop_body env oc line ?s0")
  from Cons.prems have len0: "length (history ?s0) \<le> 200" by simp
  from loop_body_recent [OF len0, of env oc line] lb
  have h': "history s' = drop (length (history s @ filter ?ok [line]) - 200) (history s @ filter ?ok [line])"
    by simp
  from loop_body_bound [OF len0, of env oc line] lb
  have len': "length (history s') \<le> 200" by simp
  show ?case
  proof (cases go)
    case False
    with lb a have "main_loop env (a # inp) eof s = s'" by simp
    with h' show ?thesis
      by (intro exI [of _ 1]) (simp add: a)
  next
    case True
    with lb a have m: "main_loop env (a # inp) eof s = main_loop env inp eof s'" by simp
    from Cons.IH [OF len'] obtain k where k: "k \<le> length inp"
      "history (main_loop env inp eof s')
         = drop (length (history s' @ filter ?ok (map snd (take k inp))) - 200)
             (history s' @ filter ?ok (map snd (take k inp)))"
      by blast
    have "history (main_loop env (a # inp) eof s)
            = drop (length ((history s @ filter ?ok [line]) @ filter ?ok (map snd (take k inp))) - 200)
                ((history s @ filter ?ok [line]) @ filter ?ok (map snd (take k inp)))"
      unfolding m k(2) h' by (rule drop_last_append)
    moreover have "map snd (take (Suc k) (a # inp)) = [line] @ map snd (take k inp)"
      by (simp add: a)
    ultimately have "history (main_loop env (a # inp) eof s)
            = drop (length (history s @ filter ?ok (map snd (take (Suc k) (a # inp)))) - 200)
                (history s @ filter ?ok (map snd (take (Suc k) (a # inp))))"
      by (simp only: filter_append append_assoc)
    with k(1) show ?thesis
      by (intro exI [of _ "Suc k"] conjI) simp_all
  qed
qed

lemma main_loop_bound:
  "length (history s) \<le> 200 \<Longrightarrow> length (history (main_loop env inp eof s)) \<le> 200"
proof (induction inp arbitrary: s)
  case Nil
  then show ?case by simp
next
  case (Cons a inp)
  obtain oc line where a: "a = (oc, line)" by (cases a)
  let ?s0 = "emit [Stdout (make_prompt oc)] s"
  obtain go s' where lb: "loop_body env oc line ?s0 = (go, s')"
    by (cases "loop_body env oc line ?s0")
  from Cons.prems have "length (history ?s0) \<le> 200" by simp
  from loop_body_bound [OF this, of env oc line] lb
  have len': "length (history s') \<le> 200" by simp
  with Cons.IH [OF len'] lb a show ?case by (cases go) simp_all
qed

section \<open>The exit status of an external command (claim C1)\<close>

text \<open>
  Claim C1, as stated, gives 127 for a failed \<open>fork\<close>. The code returns 1 there: with
  \<open>fork_ok = False\<close> the status of \<open>ls\<close> is 1, not 127.
\<close>

theorem run_external_fork_failure_counterexample:
  "fst (run_external
          \<lparr>prompt_cwd = None, pwd_cwd = None, chdir_ok = True, fork_ok = False,
           open_in_ok = True, dup2_in_ok = True, open_out_ok = True, dup2_out_ok = True,
           exec_result = Some (Exited 0), waitpid_ok = True\<rparr>
          \<lparr>argv = [''ls''], in_file = [], out_file = [], append_mode = False\<rparr>
          \<lparr>history = [''ls''], trace = []\<rparr>) = 1
   \<and> fst (run_external
          \<lparr>prompt_cwd = None, pwd_cwd = None, chdir_ok = True, fork_ok = False,
           open_in_ok = True, dup2_in_ok = True, open_out_ok = True, dup2_out_ok = True,
           exec_result = Some (Exited 0), waitpid_ok = True\<rparr>
          \<lparr>argv = [''ls''], in_file = [], out_file = [], append_mode = False\<rparr>
          \<lparr>history = [''ls''], trace = []\<rparr>) \<noteq> 127"
  by (simp add: run_external_def)

text \<open>
  Claim C1, amended: the status returned by \<open>run_external\<close> is 1 when \<open>fork\<close> fails and 1
  when \<open>waitpid\<close> fails; otherwise it is 127 when a redirection of the child fails
  (\<open>open\<close> or \<open>dup2\<close>, for a non-empty \<open>in_file\<close> or \<open>out_file\<close>) or when \<open>execvp\<close> fails,
  the child's own exit code when the program terminates normally, and 1 when it
  terminates abnormally (by a signal).
\<close>

theorem run_external_status:
  "fst (run_external oc cmd s) =
     (if \<not> fork_ok oc then 1
      else if \<not> waitpid_ok oc then 1
      else if in_file cmd \<noteq> [] \<and> (\<not> open_in_ok oc \<or> \<not> dup2_in_ok oc) then 127
      else if out_file cmd \<noteq> [] \<and> (\<not> open_out_ok oc \<or> \<not> dup2_out_ok oc) then 127
      else (case exec_result oc of
              None \<Rightarrow> 127
            | Some (Exited code) \<Rightarrow> code
            | Some (Signaled sig) \<Rightarrow> 1))"
  by (simp add: run_external_def child_def split: option.split wait_status.split)

text \<open>
  The amended claim at four commands: a missing input file (127), a program that exits
  with 3, a program killed by signal 9 (1), and a program that cannot be loaded (127).
\<close>

theorem run_external_status_witness:
  "fst (run_external
          \<lparr>prompt_cwd = None, pwd_cwd = None, chdir_ok = True, fork_ok = True,
           open_in_ok = False, dup2_in_ok = True, open_out_ok = True, dup2_out_ok = True,
           exec_result = Some (Exited 0), waitpid_ok = True\<rparr>
          \<lparr>argv = [''cat''], in_file = ''missing.txt'', out_file = [], append_mode = False\<rparr>
          \<lparr>history = [''cat < missing.txt''], trace = []\<rparr>) = 127
   \<and> fst (run_external
          \<lparr>prompt_cwd = None, pwd_cwd = None, chdir_ok = True, fork_ok = True,
           open_in_ok = True, dup2_in_ok = True, open_out_ok = True, dup2_out_ok = True,
           exec_result = Some (Exited 3), waitpid_ok = True\<rparr>
          \<lparr>argv = [''grep'', ''x''], in_file = ''in.txt'', out_file = ''out.txt'', append_mode = True\<rparr>
          \<lparr>history = [], trace = []\<rparr>) = 3
   \<and> fst (run_external
          \<lparr>prompt_cwd = None, pwd_cwd = None, chdir_ok = True, fork_ok = True,
           open_in_ok = True, dup2_in_ok = True, open_out_ok = True, dup2_out_ok = True,
           exec_result = Some (Signaled 9), waitpid_ok = True\<rparr>
          \<lparr>argv = [''sleep'', ''100''], in_file = [], out_file = [], append_mode = False\<rparr>
          \<lparr>history = [], trace = []\<rparr>) = 1
   \<and> fst (run_external
          \<lparr>prompt_cwd = None, pwd_cwd = None, chdir_ok = True, fork_ok = True,
           open_in_ok = True, dup2_in_ok = True, open_out_ok = True, dup2_out_ok = True,
           exec_result = None, waitpid_ok = True\<rparr>
          \<lparr>argv = [''nosuchprogram''], in_file = [], out_file = [], append_mode = False\<rparr>
          \<lparr>history = [], trace = []\<rparr>) = 127"
  using
    run_external_status [of
      "\<lparr>prompt_cwd = None, pwd_cwd = None, chdir_ok = True, fork_ok = True,
        open_in_ok = False, dup2_in_ok = True, open_out_ok = True, dup2_out_ok = True,
        exec_result = Some (Exited 0), waitpid_ok = True\<rparr>"
      "\<lparr>argv = [''cat''], in_file = ''missing.txt'', out_file = [], append_mode = False\<rparr>"
      "\<lparr>history = [''cat < missing.txt''], trace = []\<rparr>"]
    run_external_status [of
      "\<lparr>prompt_cwd = None, pwd_cwd = None, chdir_ok = True, fork_ok = True,
        open_in_ok = True, dup2_in_ok = True, open_out_ok = True, dup2_out_ok = True,
        exec_result = Some (Exited 3), waitpid_ok = True\<rparr>"
      "\<lparr>argv = [''grep'', ''x''], in_file = ''in.txt'', out_file = ''out.txt'', append_mode = True\<rparr>"
      "\<lparr>history = [], trace = []\<rparr>"]
    run_external_status [of
      "\<lparr>prompt_cwd = None, pwd_cwd = None, chdir_ok = True, fork_ok = True,
        open_in_ok = True, dup2_in_ok = True, open_out_ok = True, dup2_out_ok = True,
        exec_result = Some (Signaled 9), waitpid_ok = True\<rparr>"
      "\<lparr>argv = [''sleep'', ''100''], in_file = [], out_file = [], append_mode = False\<rparr>"
      "\<lparr>history = [], trace = []\<rparr>"]
    run_external_status [of
      "\<lparr>prompt_cwd = None, pwd_cwd = None, chdir_ok = True, fork_ok = True,
        open_in_ok = True, dup2_in_ok = True, open_out_ok = True, dup2_out_ok = True,
        exec_result = None, waitpid_ok = True\<rparr>"
      "\<lparr>argv = [''nosuchprogram''], in_file = [], out_file = [], append_mode = False\<rparr>"
      "\<lparr>history = [], trace = []\<rparr>"]
  by simp

section \<open>Expansion before parsing (claim C2)\<close>




section \<open>The tokenizer inside double quotes (claim C3)\<close>

text \<open>
  Claim C3: in double-quote mode, at position \<open>i\<close> of the line, (1) a backslash followed
  by a double quote or a backslash consumes both characters and appends the second one
  to the current token; (2) a backslash that is the last character, or that is followed
  by any other character, is appended alone and the next character is read as usual;
  (3) a double quote leaves the mode and is not appended; (4) any other character is
  appended.
\<close>

theorem tokenize_double_quote_mode:
  "(i + 1 < length line \<and> line ! i = backslash
      \<and> (line ! (i + 1) = dquote \<or> line ! (i + 1) = backslash)
     \<longrightarrow> tokenize_loop line i tokens cur in_single True
          = tokenize_loop line (i + 2) tokens (cur @ [line ! (i + 1)]) in_single True)
   \<and> (i < length line \<and> line ! i = backslash
      \<and> (i + 1 = length line \<or> (line ! (i + 1) \<noteq> dquote \<and> line ! (i + 1) \<noteq> backslash))
     \<longrightarrow> tokenize_loop line i tokens cur in_single True
          = tokenize_loop line (i + 1) tokens (cur @ [backslash]) in_single True)
   \<and> (i < length line \<and> line ! i = dquote
     \<longrightarrow> tokenize_loop line i tokens cur in_single True
          = tokenize_loop line (i + 1) tokens cur in_single False)
   \<and> (i < length line \<and> line ! i \<noteq> backslash \<and> line ! i \<noteq> dquote
     \<longrightarrow> tokenize_loop line i tokens cur in_single True
          = tokenize_loop line (i + 1) tokens (cur @ [line ! i]) in_single True)"
proof (intro conjI impI)
  assume "i + 1 < length line \<and> line ! i = backslash
      \<and> (line ! (i + 1) = dquote \<or> line ! (i + 1) = backslash)"
  then show "tokenize_loop line i tokens cur in_single True
          = tokenize_loop line (i + 2) tokens (cur @ [line ! (i + 1)]) in_single True"
    by (subst tokenize_loop.simps) simp
next
  assume "i < length line \<and> line ! i = backslash
      \<and> (i + 1 = length line \<or> (line ! (i + 1) \<noteq> dquote \<and> line ! (i + 1) \<noteq> backslash))"
  then show "tokenize_loop line i tokens cur in_single True
          = tokenize_loop line (i + 1) tokens (cur @ [backslash]) in_single True"
    by (subst tokenize_loop.simps) auto
next
  assume "i < length line \<and> line ! i = dquote"
  then show "tokenize_loop line i tokens cur in_single True
          = tokenize_loop line (i + 1) tokens cur in_single False"
    by (subst tokenize_loop.simps) simp
next
  assume "i < length line \<and> line ! i \<noteq> backslash \<and> line ! i \<noteq> dquote"
  then show "tokenize_loop line i tokens cur in_single True
          = tokenize_loop line (i + 1) tokens (cur @ [line ! i]) in_single True"
    by (subst tokenize_loop.simps) simp
qed

text \<open>
  Claim C3 at the backslash of \<open>echo "a\"b"\<close> (position 7), at the backslash and at the
  closing quote of \<open>echo "a\n"\<close> (positions 7 and 9), with the token lists of the whole
  lines.
\<close>

theorem tokenize_double_quote_mode_witness:
  "tokenize_loop (''echo '' @ [dquote] @ ''a'' @ [backslash, dquote] @ ''b'' @ [dquote]) 7
       [''echo''] ''a'' False True
     = tokenize_loop (''echo '' @ [dquote] @ ''a'' @ [backslash, dquote] @ ''b'' @ [dquote]) 9
         [''echo''] (''a'' @ [dquote]) False True
   \<and> tokenize_loop (''echo '' @ [dquote] @ ''a'' @ [backslash] @ ''n'' @ [dquote]) 7
       [''echo''] ''a'' False True
     = tokenize_loop (''echo '' @ [dquote] @ ''a'' @ [backslash] @ ''n'' @ [dquote]) 8
         [''echo''] (''a'' @ [backslash]) False True
   \<and> tokenize_loop (''echo '' @ [dquote] @ ''a'' @ [backslash] @ ''n'' @ [dquote]) 9
       [''echo''] (''a'' @ [backslash] @ ''n'') False True
     = tokenize_loop (''echo '' @ [dquote] @ ''a'' @ [backslash] @ ''n'' @ [dquote]) 10
         [''echo''] (''a'' @ [backslash] @ ''n'') False False
   \<and> tokenize (''echo '' @ [dquote] @ ''a'' @ [backslash, dquote] @ ''b'' @ [dquote])
     = [''echo'', ''a'' @ [dquote] @ ''b'']
   \<and> tokenize (''echo '' @ [dquote] @ ''a'' @ [backslash] @ ''n'' @ [dquote])
     = [''echo'', ''a'' @ [backslash] @ ''n'']
   \<and> tokenize (''echo '' @ [dquote] @ ''hello world'' @ [dquote]) = [''echo'', ''hello world'']"
  using
    tokenize_double_quote_mode [of 7
      "''echo '' @ [dquote] @ ''a'' @ [backslash, dquote] @ ''b'' @ [dquote]"
      "[''echo'']" "''a''" False]
    tokenize_double_quote_mode [of 7
      "''echo '' @ [dquote] @ ''a'' @ [backslash] @ ''n'' @ [dquote]"
      "[''echo'']" "''a''" False]
    tokenize_double_quote_mode [of 9
      "''echo '' @ [dquote] @ ''a'' @ [backslash] @ ''n'' @ [dquote]"
      "[''echo'']" "''a'' @ [backslash] @ ''n''" False]
  by (simp add: tokenize_def tokenize_loop.simps isspace_def dquote_def squote_def backslash_def)

section \<open>The errors of the parser (claim C4)\<close>

text \<open>
  Claim C4, as stated, has the parser fail whenever the last token is \<open><\<close>, \<open>>\<close> or \<open>>>\<close>.
  A token that the scan takes as the file name of an operator is not looked at again: in
  \<open>echo > >\<close> the last token is the file name of the first \<open>>\<close>, and the parse succeeds.
\<close>

theorem parse_command_last_token_counterexample:
  "last [''echo'', ''>'', ''>''] = ''>''
   \<and> parse_command [''echo'', ''>'', ''>'']
       = Inr \<lparr>argv = [''echo''], in_file = [], out_file = ''>'', append_mode = False\<rparr>"
  by (simp add: parse_command_def empty_Command_def)

text \<open>
  Claim C4, amended. (1) When the scan has gone through the tokens \<open>pre\<close> and the next
  token \<open>t\<close> is an operator, the parser fails with the syntax error that names \<open>t\<close> if
  \<open>t\<close> is the last token, and only a vector of that form gives this error. (2) Otherwise
  the token after \<open>t\<close> is taken as its file name and the scan goes on behind it; the pair
  adds nothing to \<open>argv\<close> (the vector without the pair has the same \<open>argv\<close>), and the
  \<open>argv\<close> of a parsed command is a non-empty subsequence of the tokens that holds no
  operator. (3) The parser fails with \<open>Empty command\<close> exactly when the scan ends with an
  empty \<open>argv\<close>; there is no other error. The loop prints nothing for \<open>Empty command\<close> and
  writes the syntax error, with a newline, to standard error.
\<close>

theorem parse_command_errors:
  "(parse_loop pre empty_Command = Inr c \<and> (t = ''<'' \<or> t = ''>'' \<or> t = ''>>'')
      \<longrightarrow> parse_command (pre @ [t]) = Inl (''Syntax error: missing file after redirection '' @ t)
        \<and> parse_loop (pre @ t # fname # rest) empty_Command
            = parse_loop rest (if t = ''<'' then c\<lparr>in_file := fname\<rparr>
                               else c\<lparr>out_file := fname, append_mode := (t = ''>>'')\<rparr>)
        \<and> map_sum (\<lambda>e. e) argv (parse_loop (pre @ t # fname # rest) empty_Command)
            = map_sum (\<lambda>e. e) argv (parse_loop (pre @ rest) empty_Command))
   \<and> (parse_command tokens = Inl (''Syntax error: missing file after redirection '' @ t)
      \<longrightarrow> (t = ''<'' \<or> t = ''>'' \<or> t = ''>>'')
        \<and> (\<exists>pre' c'. tokens = pre' @ [t] \<and> parse_loop pre' empty_Command = Inr c'))
   \<and> (parse_command tokens = Inr cmd
      \<longrightarrow> argv cmd \<noteq> [] \<and> subseq (argv cmd) tokens
        \<and> (\<forall>a \<in> set (argv cmd). a \<noteq> ''<'' \<and> a \<noteq> ''>'' \<and> a \<noteq> ''>>''))
   \<and> ((parse_command tokens = Inl ''Empty command'')
        = (\<exists>c'. parse_loop tokens empty_Command = Inr c' \<and> argv c' = []))
   \<and> (parse_command tokens = Inl err
      \<longrightarrow> err = ''Empty command''
        \<or> (\<exists>u. (u = ''<'' \<or> u = ''>'' \<or> u = ''>>'')
               \<and> err = ''Syntax error: missing file after redirection '' @ u))
   \<and> (parse_command (expand_env env (tokenize line)) = Inl ''Empty command''
      \<longrightarrow> loop_body env oc line s = (True, s))
   \<and> (parse_command (expand_env env (tokenize line))
        = Inl (''Syntax error: missing file after redirection '' @ t)
      \<longrightarrow> loop_body env oc line s
          = (True, emit [Stderr (''Syntax error: missing file after redirection '' @ t
                                  @ ''\<newline>'')] s))"
proof (intro conjI impI)
  assume "parse_loop pre empty_Command = Inr c \<and> (t = ''<'' \<or> t = ''>'' \<or> t = ''>>'')"
  then have pre: "parse_loop pre empty_Command = Inr c" and op: "t = ''<'' \<or> t = ''>'' \<or> t = ''>>''"
    by simp_all
  from op show "parse_command (pre @ [t]) = Inl (''Syntax error: missing file after redirection '' @ t)"
    by (simp add: parse_command_def parse_loop_append [OF pre])
  from op show pair: "parse_loop (pre @ t # fname # rest) empty_Command
            = parse_loop rest (if t = ''<'' then c\<lparr>in_file := fname\<rparr>
                               else c\<lparr>out_file := fname, append_mode := (t = ''>>'')\<rparr>)"
    by (simp add: parse_loop_append [OF pre])
  have "map_sum (\<lambda>e. e) argv (parse_loop rest (if t = ''<'' then c\<lparr>in_file := fname\<rparr>
                               else c\<lparr>out_file := fname, append_mode := (t = ''>>'')\<rparr>))
      = map_sum (\<lambda>e. e) argv (parse_loop rest c)"
    by (rule parse_loop_fields) simp
  then show "map_sum (\<lambda>e. e) argv (parse_loop (pre @ t # fname # rest) empty_Command)
            = map_sum (\<lambda>e. e) argv (parse_loop (pre @ rest) empty_Command)"
    by (simp only: pair parse_loop_append [OF pre, of rest])
next
  assume a: "parse_command tokens = Inl (''Syntax error: missing file after redirection '' @ t)"
  then have "parse_loop tokens empty_Command = Inl (''Syntax error: missing file after redirection '' @ t)"
    by (auto simp: parse_command_def split: sum.splits if_splits)
  from parse_loop_error [OF this] obtain pre' u c' where
    "tokens = pre' @ [u]" "u = ''<'' \<or> u = ''>'' \<or> u = ''>>''"
    "parse_loop pre' empty_Command = Inr c'" "t = u"
    by auto
  then show "t = ''<'' \<or> t = ''>'' \<or> t = ''>>''"
    and "\<exists>pre' c'. tokens = pre' @ [t] \<and> parse_loop pre' empty_Command = Inr c'"
    by auto
next
  assume a: "parse_command tokens = Inr cmd"
  then have l: "parse_loop tokens empty_Command = Inr cmd" and ne: "argv cmd \<noteq> []"
    by (auto simp: parse_command_def split: sum.splits if_splits)
  from ne show "argv cmd \<noteq> []" .
  from parse_loop_argv [OF l]
  show "subseq (argv cmd) tokens"
    and "\<forall>a \<in> set (argv cmd). a \<noteq> ''<'' \<and> a \<noteq> ''>'' \<and> a \<noteq> ''>>''"
    by (auto simp: empty_Command_def)
next
  show "(parse_command tokens = Inl ''Empty command'')
        = (\<exists>c'. parse_loop tokens empty_Command = Inr c' \<and> argv c' = [])"
  proof (cases "parse_loop tokens empty_Command")
    case (Inl e)
    from parse_loop_error [OF this] have "e \<noteq> ''Empty command''" by auto
    with Inl show ?thesis by (simp add: parse_command_def)
  next
    case (Inr c')
    then show ?thesis by (simp add: parse_command_def)
  qed
next
  assume a: "parse_command tokens = Inl err"
  show "err = ''Empty command''
        \<or> (\<exists>u. (u = ''<'' \<or> u = ''>'' \<or> u = ''>>'')
               \<and> err = ''Syntax error: missing file after redirection '' @ u)"
  proof (cases "parse_loop tokens empty_Command")
    case (Inl e)
    with a have "e = err" by (simp add: parse_command_def)
    with parse_loop_error [OF Inl] show ?thesis by blast
  next
    case (Inr c')
    with a show ?thesis by (simp add: parse_command_def split: if_splits)
  qed
next
  assume "parse_command (expand_env env (tokenize line)) = Inl ''Empty command''"
  then show "loop_body env oc line s = (True, s)"
    by (simp add: loop_body_def)
next
  assume a: "parse_command (expand_env env (tokenize line))
        = Inl (''Syntax error: missing file after redirection '' @ t)"
  then have "\<not> is_all_spaces line"
    using expand_env_tokenize_blank [of line env] by auto
  with a show "loop_body env oc line s
          = (True, emit [Stderr (''Syntax error: missing file after redirection '' @ t
                                  @ ''\<newline>'')] s)"
    by (simp add: loop_body_def)
qed

text \<open>
  The amended claim at \<open>cmd <\<close> (syntax error, reported), \<open>> x\<close> (empty command, silent)
  and \<open>echo hi > out.txt\<close>.
\<close>

theorem parse_command_errors_witness:
  "parse_command [''cmd'', ''<''] = Inl ''Syntax error: missing file after redirection <''
   \<and> parse_command [''>'', ''x''] = Inl ''Empty command''
   \<and> parse_command [''echo'', ''hi'', ''>'', ''out.txt'']
       = Inr \<lparr>argv = [''echo'', ''hi''], in_file = [], out_file = ''out.txt'', append_mode = False\<rparr>
   \<and> loop_body []
         \<lparr>prompt_cwd = None, pwd_cwd = None, chdir_ok = True, fork_ok = True,
          open_in_ok = True, dup2_in_ok = True, open_out_ok = True, dup2_out_ok = True,
          exec_result = Some (Exited 0), waitpid_ok = True\<rparr>
         ''cmd <'' \<lparr>history = [''ls''], trace = []\<rparr>
       = (True, \<lparr>history = [''ls''],
                 trace = [Stderr ''Syntax error: missing file after redirection <\<newline>'']\<rparr>)
   \<and> loop_body []
         \<lparr>prompt_cwd = None, pwd_cwd = None, chdir_ok = True, fork_ok = True,
          open_in_ok = True, dup2_in_ok = True, open_out_ok = True, dup2_out_ok = True,
          exec_result = Some (Exited 0), waitpid_ok = True\<rparr>
         ''> x'' \<lparr>history = [''ls''], trace = []\<rparr>
       = (True, \<lparr>history = [''ls''], trace = []\<rparr>)"
  using
    parse_command_errors [where pre = "[''cmd'']"
      and c = "\<lparr>argv = [''cmd''], in_file = [], out_file = [], append_mode = False\<rparr>"
      and t = "''<''" and fname = "''in.txt''" and rest = "[''x'']"
      and tokens = "[''echo'', ''hi'', ''>'', ''out.txt'']"
      and cmd = "\<lparr>argv = [''echo'', ''hi''], in_file = [], out_file = ''out.txt'', append_mode = False\<rparr>"
      and err = "''Empty command''" and env = "[]" and line = "''cmd <''"
      and oc = "\<lparr>prompt_cwd = None, pwd_cwd = None, chdir_ok = True, fork_ok = True,
          open_in_ok = True, dup2_in_ok = True, open_out_ok = True, dup2_out_ok = True,
          exec_result = Some (Exited 0), waitpid_ok = True\<rparr>"
      and s = "\<lparr>history = [''ls''], trace = []\<rparr>"]
    parse_command_errors [where pre = "[]" and c = empty_Command
      and t = "''>''" and fname = "''x''" and rest = "[]"
      and tokens = "[''>'', ''x'']"
      and cmd = empty_Command
      and err = "''Empty command''" and env = "[]" and line = "''> x''"
      and oc = "\<lparr>prompt_cwd = None, pwd_cwd = None, chdir_ok = True, fork_ok = True,
          open_in_ok = True, dup2_in_ok = True, open_out_ok = True, dup2_out_ok = True,
          exec_result = Some (Exited 0), waitpid_ok = True\<rparr>"
      and s = "\<lparr>history = [''ls''], trace = []\<rparr>"]
  by (simp add: parse_command_def empty_Command_def emit_def expand_env_def
        expand_token_char expand_token_Nil
        tokenize_def tokenize_loop.simps isspace_def dquote_def squote_def backslash_def)

section \<open>Expansion of one token and of a token list (claim C5)\<close>

text \<open>
  Claim C5: in a token, \<open>$\<close> followed by a letter or an underscore and then the longest
  run of letters, digits and underscores is replaced by the value of that name in the
  environment, or by nothing when the name is unset; a \<open>$\<close> followed by anything else, or
  by nothing, is copied; every other character is copied. \<open>expand_env\<close> maps this over the
  list: same length, same order. With \<open>HOME=/home/u\<close>, \<open>$HOME/x\<close> becomes \<open>/home/u/x\<close>;
  with \<open>FOO\<close> unset, \<open>$FOO\<close> becomes the empty token; \<open>$\<close> stays \<open>$\<close>.
\<close>

theorem expand_env_spec:
  "expand_env_in_token env [] = []
   \<and> (c \<noteq> CHR ''$'' \<longrightarrow> expand_env_in_token env (c # r) = c # expand_env_in_token env r)
   \<and> (r = [] \<or> \<not> (isalpha (hd r) \<or> hd r = CHR ''_'')
        \<longrightarrow> expand_env_in_token env (CHR ''$'' # r) = CHR ''$'' # expand_env_in_token env r)
   \<and> (isalpha a \<or> a = CHR ''_''
        \<longrightarrow> expand_env_in_token env (CHR ''$'' # a # r)
            = (case getenv env (a # takeWhile (\<lambda>c. isalnum c \<or> c = CHR ''_'') r) of
                 Some val \<Rightarrow> val | None \<Rightarrow> [])
              @ expand_env_in_token env (dropWhile (\<lambda>c. isalnum c \<or> c = CHR ''_'') r))
   \<and> length (expand_env env tokens) = length tokens
   \<and> (\<forall>i < length tokens. expand_env env tokens ! i = expand_env_in_token env (tokens ! i))
   \<and> (getenv env ''HOME'' = Some ''/home/u'' \<longrightarrow> expand_env env [''$HOME/x''] = [''/home/u/x''])
   \<and> (getenv env ''FOO'' = None \<longrightarrow> expand_env env [''$FOO''] = [''''])
   \<and> expand_env env [''$''] = [''$'']"
proof (intro conjI impI allI)
  show "expand_env_in_token env [] = []"
    by (rule expand_token_Nil)
  show "expand_env_in_token env (c # r) = c # expand_env_in_token env r" if "c \<noteq> CHR ''$''"
    using that by (rule expand_token_char)
  show "expand_env_in_token env (CHR ''$'' # r) = CHR ''$'' # expand_env_in_token env r"
    if "r = [] \<or> \<not> (isalpha (hd r) \<or> hd r = CHR ''_'')"
    using that by (rule expand_token_dollar)
  show "expand_env_in_token env (CHR ''$'' # a # r)
            = (case getenv env (a # takeWhile (\<lambda>c. isalnum c \<or> c = CHR ''_'') r) of
                 Some val \<Rightarrow> val | None \<Rightarrow> [])
              @ expand_env_in_token env (dropWhile (\<lambda>c. isalnum c \<or> c = CHR ''_'') r)"
    if "isalpha a \<or> a = CHR ''_''"
    using that by (rule expand_token_var)
  show "length (expand_env env tokens) = length tokens"
    by (simp add: expand_env_def)
  show "expand_env env tokens ! i = expand_env_in_token env (tokens ! i)" if "i < length tokens" for i
    using that by (simp add: expand_env_def)
  show "expand_env env [''$HOME/x''] = [''/home/u/x'']" if "getenv env ''HOME'' = Some ''/home/u''"
    using that
    by (simp add: expand_env_def expand_token_var expand_token_char expand_token_Nil
          isalpha_def isalnum_def isdigit_def)
  show "expand_env env [''$FOO''] = ['''']" if "getenv env ''FOO'' = None"
    using that
    by (simp add: expand_env_def expand_token_var expand_token_char expand_token_Nil
          isalpha_def isalnum_def isdigit_def)
  show "expand_env env [''$''] = [''$'']"
    by (simp add: expand_env_def expand_token_dollar expand_token_Nil)
qed

text \<open>
  Claim C5 in the environment \<open>HOME=/home/u\<close>: the three examples, the longest-run rule
  (\<open>$HOME_x\<close> is the unset name \<open>HOME_x\<close>, \<open>$9\<close> is no reference) and the element-wise
  rule.
\<close>

theorem expand_env_spec_witness:
  "expand_env [(''HOME'', ''/home/u'')] [''$HOME/x''] = [''/home/u/x'']
   \<and> expand_env [(''HOME'', ''/home/u'')] [''$FOO''] = ['''']
   \<and> expand_env [(''HOME'', ''/home/u'')] [''$''] = [''$'']
   \<and> expand_env_in_token [(''HOME'', ''/home/u'')] ''$HOME_x/$HOME$9$''
       = expand_env_in_token [(''HOME'', ''/home/u'')] ''/$HOME$9$''
   \<and> expand_env_in_token [(''HOME'', ''/home/u'')] ''a$'' = ''a$''
   \<and> expand_env [(''HOME'', ''/home/u'')] [''cd'', ''$HOME'', ''x y''] ! 1
       = expand_env_in_token [(''HOME'', ''/home/u'')] ''$HOME''"
  using
    expand_env_spec [where env = "[(''HOME'', ''/home/u'')]" and c = "CHR ''a''" and r = "''$''"
      and a = "CHR ''H''" and tokens = "[''cd'', ''$HOME'', ''x y'']"]
    expand_env_spec [where env = "[(''HOME'', ''/home/u'')]" and c = "CHR ''a''"
      and r = "''OME_x/$HOME$9$''" and a = "CHR ''H''" and tokens = "[]"]
  by (simp add: getenv_def expand_env_def isalpha_def isalnum_def isdigit_def)

section \<open>What the history records (claim C6)\<close>



section \<open>Built-ins run in the shell and ignore redirections (claim C7)\<close>

text \<open>
  Claim C7: when \<open>argv[0]\<close> is \<open>cd\<close>, \<open>pwd\<close>, \<open>exit\<close>, \<open>help\<close> or \<open>history\<close>, the dispatch
  does the same whatever \<open>in_file\<close>, \<open>out_file\<close> and \<open>append\<close> are, leaves the history as it
  is and adds no \<open>fork\<close> to the trace. For any other name the dispatch is \<open>run_external\<close>,
  which calls \<open>fork\<close>.
\<close>

theorem builtins_ignore_redirections:
  "(is_builtin (argv cmd ! 0)
      \<longrightarrow> dispatch env oc (cmd\<lparr>in_file := inp, out_file := out, append_mode := app\<rparr>) s
            = dispatch env oc cmd s
        \<and> history (snd (dispatch env oc cmd s)) = history s
        \<and> (\<exists>evs. trace (snd (dispatch env oc cmd s)) = trace s @ evs \<and> Fork \<notin> set evs))
   \<and> (\<not> is_builtin (argv cmd ! 0)
      \<longrightarrow> dispatch env oc cmd s = (True, snd (run_external oc cmd s))
        \<and> (\<exists>evs. trace (snd (dispatch env oc cmd s)) = trace s @ Fork # evs))"
proof (intro conjI impI)
  assume b: "is_builtin (argv cmd ! 0)"
  then show "dispatch env oc (cmd\<lparr>in_file := inp, out_file := out, append_mode := app\<rparr>) s
            = dispatch env oc cmd s"
    by (auto simp: dispatch_def is_builtin_def)
  show "history (snd (dispatch env oc cmd s)) = history s"
    by (rule dispatch_history)
  from b consider "argv cmd ! 0 = ''exit''" | "argv cmd ! 0 = ''cd''" | "argv cmd ! 0 = ''pwd''"
    | "argv cmd ! 0 = ''help''" | "argv cmd ! 0 = ''history''"
    by (auto simp: is_builtin_def)
  then show "\<exists>evs. trace (snd (dispatch env oc cmd s)) = trace s @ evs \<and> Fork \<notin> set evs"
  proof cases
    case 1
    then show ?thesis by (simp add: dispatch_def)
  next
    case 2
    then show ?thesis by (simp add: dispatch_def builtin_cd_state)
  next
    case 3
    then show ?thesis by (simp add: dispatch_def builtin_pwd_state)
  next
    case 4
    then show ?thesis by (simp add: dispatch_def print_help_def)
  next
    case 5
    then show ?thesis by (auto simp: dispatch_def print_history_def)
  qed
next
  assume "\<not> is_builtin (argv cmd ! 0)"
  then show "dispatch env oc cmd s = (True, snd (run_external oc cmd s))"
    and "\<exists>evs. trace (snd (dispatch env oc cmd s)) = trace s @ Fork # evs"
    by (simp_all add: dispatch_def is_builtin_def run_external_state)
qed

text \<open>
  Claim C7 at \<open>cd < missing >> /no/such/dir/out\<close> and \<open>pwd > out.txt\<close>, where the files
  cannot be opened: the built-ins run as without redirection. The external \<open>ls > out.txt\<close>
  forks, and its child fails to open the file.
\<close>

theorem builtins_ignore_redirections_witness:
  "dispatch [(''HOME'', ''/home/u'')]
      \<lparr>prompt_cwd = None, pwd_cwd = Some ''/tmp'', chdir_ok = True, fork_ok = True,
       open_in_ok = False, dup2_in_ok = True, open_out_ok = False, dup2_out_ok = True,
       exec_result = None, waitpid_ok = True\<rparr>
      \<lparr>argv = [''cd''], in_file = ''missing'', out_file = ''/no/such/dir/out'', append_mode = True\<rparr>
      \<lparr>history = [''cd < missing >> /no/such/dir/out''], trace = []\<rparr>
     = (True, \<lparr>history = [''cd < missing >> /no/such/dir/out''], trace = [Chdir ''/home/u'']\<rparr>)
   \<and> dispatch [(''HOME'', ''/home/u'')]
      \<lparr>prompt_cwd = None, pwd_cwd = Some ''/tmp'', chdir_ok = True, fork_ok = True,
       open_in_ok = False, dup2_in_ok = True, open_out_ok = False, dup2_out_ok = True,
       exec_result = None, waitpid_ok = True\<rparr>
      \<lparr>argv = [''pwd''], in_file = [], out_file = ''out.txt'', append_mode = False\<rparr>
      \<lparr>history = [''pwd > out.txt''], trace = []\<rparr>
     = (True, \<lparr>history = [''pwd > out.txt''], trace = [Stdout ''/tmp\<newline>'']\<rparr>)
   \<and> dispatch [(''HOME'', ''/home/u'')]
      \<lparr>prompt_cwd = None, pwd_cwd = Some ''/tmp'', chdir_ok = True, fork_ok = True,
       open_in_ok = False, dup2_in_ok = True, open_out_ok = False, dup2_out_ok = True,
       exec_result = None, waitpid_ok = True\<rparr>
      \<lparr>argv = [''ls''], in_file = [], out_file = ''out.txt'', append_mode = False\<rparr>
      \<lparr>history = [''ls > out.txt''], trace = []\<rparr>
     = (True, \<lparr>history = [''ls > out.txt''], trace = [Fork, Perror ''open >'']\<rparr>)"
  using
    builtins_ignore_redirections [where env = "[(''HOME'', ''/home/u'')]"
      and oc = "\<lparr>prompt_cwd = None, pwd_cwd = Some ''/tmp'', chdir_ok = True, fork_ok = True,
       open_in_ok = False, dup2_in_ok = True, open_out_ok = False, dup2_out_ok = True,
       exec_result = None, waitpid_ok = True\<rparr>"
      and cmd = "\<lparr>argv = [''cd''], in_file = [], out_file = [], append_mode = False\<rparr>"
      and inp = "''missing''" and out = "''/no/such/dir/out''" and app = True
      and s = "\<lparr>history = [''cd < missing >> /no/such/dir/out''], trace = []\<rparr>"]
    builtins_ignore_redirections [where env = "[(''HOME'', ''/home/u'')]"
      and oc = "\<lparr>prompt_cwd = None, pwd_cwd = Some ''/tmp'', chdir_ok = True, fork_ok = True,
       open_in_ok = False, dup2_in_ok = True, open_out_ok = False, dup2_out_ok = True,
       exec_result = None, waitpid_ok = True\<rparr>"
      and cmd = "\<lparr>argv = [''pwd''], in_file = [], out_file = [], append_mode = False\<rparr>"
      and inp = "[]" and out = "''out.txt''" and app = False
      and s = "\<lparr>history = [''pwd > out.txt''], trace = []\<rparr>"]
    builtins_ignore_redirections [where env = "[(''HOME'', ''/home/u'')]"
      and oc = "\<lparr>prompt_cwd = None, pwd_cwd = Some ''/tmp'', chdir_ok = True, fork_ok = True,
       open_in_ok = False, dup2_in_ok = True, open_out_ok = False, dup2_out_ok = True,
       exec_result = None, waitpid_ok = True\<rparr>"
      and cmd = "\<lparr>argv = [''ls''], in_file = [], out_file = ''out.txt'', append_mode = False\<rparr>"
      and inp = "[]" and out = "''out.txt''" and app = False
      and s = "\<lparr>history = [''ls > out.txt''], trace = []\<rparr>"]
  by (simp add: is_builtin_def dispatch_def builtin_cd_def builtin_pwd_def run_external_def
        child_def getenv_def emit_def)

section \<open>Repeated redirections (claim C8)\<close>



section \<open>Quoting does not stop expansion (claim C9)\<close>

text \<open>
  Claim C9: the tokenizer drops the quote characters and keeps no mark of them, and
  \<open>expand_env\<close> treats every token alike, so a \<open>$NAME\<close> reference inside quotes is
  expanded. For every word \<open>w\<close> without white space and quotes, after any unquoted text
  \<open>pre\<close> and before any text \<open>post\<close>, the line with \<open>w\<close> in single quotes has the tokens of
  the line with \<open>w\<close> bare; so has the line with \<open>w\<close> in double quotes when \<open>w\<close> has no
  backslash. Whatever stands between the quotes after \<open>echo\<close> (white space included) is
  one token, and it is expanded. In particular \<open>echo '$HOME'\<close>, \<open>echo "$HOME"\<close> and \<open>echo $HOME\<close> give the same
  tokens, which expand to \<open>echo\<close> and the value of \<open>HOME\<close>, and the same parse result.
\<close>

theorem quoting_keeps_expansion:
  "((\<forall>c \<in> set pre. c \<noteq> dquote \<and> c \<noteq> squote)
      \<and> (\<forall>c \<in> set w. \<not> isspace c \<and> c \<noteq> dquote \<and> c \<noteq> squote)
     \<longrightarrow> tokenize (pre @ [squote] @ w @ [squote] @ post) = tokenize (pre @ w @ post)
       \<and> (backslash \<notin> set w
            \<longrightarrow> tokenize (pre @ [dquote] @ w @ [dquote] @ post) = tokenize (pre @ w @ post)))
   \<and> (squote \<notin> set body \<and> body \<noteq> []
        \<longrightarrow> expand_env env (tokenize (''echo '' @ [squote] @ body @ [squote]))
            = [''echo'', expand_env_in_token env body])
   \<and> (dquote \<notin> set body \<and> backslash \<notin> set body \<and> body \<noteq> []
        \<longrightarrow> expand_env env (tokenize (''echo '' @ [dquote] @ body @ [dquote]))
            = [''echo'', expand_env_in_token env body])
   \<and> expand_env env (tokenize line) = map (expand_env_in_token env) (tokenize line)
   \<and> tokenize (''echo '' @ [squote] @ ''$HOME'' @ [squote]) = [''echo'', ''$HOME'']
   \<and> tokenize (''echo '' @ [dquote] @ ''$HOME'' @ [dquote]) = [''echo'', ''$HOME'']
   \<and> tokenize ''echo $HOME'' = [''echo'', ''$HOME'']
   \<and> expand_env env [''echo'', ''$HOME'']
       = [''echo'', case getenv env ''HOME'' of Some val \<Rightarrow> val | None \<Rightarrow> []]
   \<and> parse_command (expand_env env (tokenize (''echo '' @ [squote] @ ''$HOME'' @ [squote])))
       = parse_command (expand_env env (tokenize ''echo $HOME''))
   \<and> parse_command (expand_env env (tokenize (''echo '' @ [dquote] @ ''$HOME'' @ [dquote])))
       = parse_command (expand_env env (tokenize ''echo $HOME''))"
proof -
  have general: "tokenize (pre @ [squote] @ w @ [squote] @ post) = tokenize (pre @ w @ post)
       \<and> (backslash \<notin> set w
            \<longrightarrow> tokenize (pre @ [dquote] @ w @ [dquote] @ post) = tokenize (pre @ w @ post))"
    if pre: "\<forall>c \<in> set pre. c \<noteq> dquote \<and> c \<noteq> squote"
      and w: "\<forall>c \<in> set w. \<not> isspace c \<and> c \<noteq> dquote \<and> c \<noteq> squote"
    for pre w post
  proof -
    from tokenize_loop_unquoted [OF pre, of "[]" "[]"] obtain tokens' cur' where
      start: "\<And>rest. tokenize_loop (pre @ rest) 0 [] [] False False
                = tokenize_loop rest 0 tokens' cur' False False"
      by blast
    have plain: "tokenize (pre @ w @ post) = tokenize_loop post 0 tokens' (cur' @ w) False False"
      by (simp add: tokenize_def start tokenize_loop_word [OF w])
    from w have sq: "squote \<notin> set w" and dq: "dquote \<notin> set w"
      by auto
    have "tokenize (pre @ [squote] @ w @ [squote] @ post)
            = tokenize_loop (w @ squote # post) 0 tokens' cur' True False"
      by (simp add: tokenize_def start tokenize_loop_open_single)
    also have "\<dots> = tokenize_loop post 0 tokens' (cur' @ w) False False"
      by (simp add: tokenize_loop_in_single [OF sq] tokenize_loop_close_single)
    finally have single: "tokenize (pre @ [squote] @ w @ [squote] @ post) = tokenize (pre @ w @ post)"
      by (simp add: plain)
    have double: "tokenize (pre @ [dquote] @ w @ [dquote] @ post) = tokenize (pre @ w @ post)"
      if bs: "backslash \<notin> set w"
    proof -
      have "tokenize (pre @ [dquote] @ w @ [dquote] @ post)
              = tokenize_loop (w @ dquote # post) 0 tokens' cur' False True"
        by (simp add: tokenize_def start tokenize_loop_open_double)
      also have "\<dots> = tokenize_loop post 0 tokens' (cur' @ w) False False"
        by (simp add: tokenize_loop_in_double [OF dq bs] tokenize_loop_close_double)
      finally show ?thesis by (simp add: plain)
    qed
    from single double show ?thesis by blast
  qed
  have start: "tokenize_loop (''echo '' @ rest) 0 [] [] False False
                 = tokenize_loop rest 0 [''echo''] [] False False" for rest
    by (simp add: tokenize_loop_plain tokenize_loop_space isspace_def dquote_def squote_def)
  have echo: "expand_env_in_token env ''echo'' = ''echo''"
    by (simp add: expand_token_no_dollar)
  have in_single: "expand_env env (tokenize (''echo '' @ [squote] @ body @ [squote]))
            = [''echo'', expand_env_in_token env body]"
    if "squote \<notin> set body \<and> body \<noteq> []"
  proof -
    from that have "tokenize (''echo '' @ [squote] @ body @ [squote]) = [''echo'', body]"
      using start [of "[squote] @ body @ [squote]"]
      by (simp add: tokenize_def tokenize_loop_open_single tokenize_loop_in_single
            tokenize_loop_close_single tokenize_loop_Nil)
    then show ?thesis by (simp add: expand_env_def echo)
  qed
  have in_double: "expand_env env (tokenize (''echo '' @ [dquote] @ body @ [dquote]))
            = [''echo'', expand_env_in_token env body]"
    if "dquote \<notin> set body \<and> backslash \<notin> set body \<and> body \<noteq> []"
  proof -
    from that have "tokenize (''echo '' @ [dquote] @ body @ [dquote]) = [''echo'', body]"
      using start [of "[dquote] @ body @ [dquote]"]
      by (simp add: tokenize_def tokenize_loop_open_double tokenize_loop_in_double
            tokenize_loop_close_double tokenize_loop_Nil)
    then show ?thesis by (simp add: expand_env_def echo)
  qed
  have uniform: "expand_env env (tokenize line) = map (expand_env_in_token env) (tokenize line)"
    by (simp add: expand_env_def)
  have pre: "\<forall>c \<in> set ''echo ''. c \<noteq> dquote \<and> c \<noteq> squote"
    by (simp add: dquote_def squote_def)
  have w: "\<forall>c \<in> set ''$HOME''. \<not> isspace c \<and> c \<noteq> dquote \<and> c \<noteq> squote"
    by (simp add: dquote_def squote_def isspace_def)
  have bs: "backslash \<notin> set ''$HOME''"
    by (simp add: backslash_def)
  have plain: "tokenize ''echo $HOME'' = [''echo'', ''$HOME'']"
    by (simp add: tokenize_def tokenize_loop.simps isspace_def dquote_def squote_def)
  from general [OF pre w, of "[]"] bs plain
  have single: "tokenize (''echo '' @ [squote] @ ''$HOME'' @ [squote]) = [''echo'', ''$HOME'']"
    and double: "tokenize (''echo '' @ [dquote] @ ''$HOME'' @ [dquote]) = [''echo'', ''$HOME'']"
    by simp_all
  have expand: "expand_env env [''echo'', ''$HOME'']
       = [''echo'', case getenv env ''HOME'' of Some val \<Rightarrow> val | None \<Rightarrow> []]"
    by (simp add: expand_env_def expand_token_var expand_token_char expand_token_Nil
          isalpha_def isalnum_def isdigit_def)
  from general in_single in_double uniform single double plain expand show ?thesis
    by (simp only: simp_thms) blast
qed

text \<open>
  Claim C9 for the word \<open>$HOME/bin\<close> in \<open>ls '$HOME/bin' -l\<close> with \<open>HOME=/home/u\<close>, and the
  command parsed from \<open>echo '$HOME'\<close>.
\<close>

theorem quoting_keeps_expansion_witness:
  "tokenize (''ls '' @ [squote] @ ''$HOME/bin'' @ [squote] @ '' -l'')
     = tokenize (''ls '' @ ''$HOME/bin'' @ '' -l'')
   \<and> tokenize (''ls '' @ [dquote] @ ''$HOME/bin'' @ [dquote] @ '' -l'')
     = tokenize (''ls '' @ ''$HOME/bin'' @ '' -l'')
   \<and> expand_env [(''HOME'', ''/home/u'')]
        (tokenize (''ls '' @ [squote] @ ''$HOME/bin'' @ [squote] @ '' -l''))
     = [''ls'', ''/home/u/bin'', ''-l'']
   \<and> expand_env [(''HOME'', ''/home/u'')]
        (tokenize (''echo '' @ [squote] @ ''$HOME dir'' @ [squote]))
     = [''echo'', ''/home/u dir'']
   \<and> parse_command (expand_env [(''HOME'', ''/home/u'')]
        (tokenize (''echo '' @ [squote] @ ''$HOME'' @ [squote])))
     = Inr \<lparr>argv = [''echo'', ''/home/u''], in_file = [], out_file = [], append_mode = False\<rparr>"
  using quoting_keeps_expansion [where pre = "''ls ''" and w = "''$HOME/bin''" and post = "'' -l''"
      and env = "[(''HOME'', ''/home/u'')]" and body = "''$HOME dir''" and line = "''ls''"]
  by (simp add: tokenize_def tokenize_loop.simps isspace_def dquote_def squote_def backslash_def
        expand_env_def expand_token_var expand_token_char expand_token_Nil
        isalpha_def isalnum_def isdigit_def getenv_def parse_command_def empty_Command_def)

section \<open>The history holds at most 200 entries (claim C10)\<close>

text \<open>
  Claim C10: after every run of the shell the history has at most 200 entries, and they
  are the last 200 (or all, if fewer) of the parsed lines that were read, in order.
  Recording a line appends it and then drops the first entry if there are more than 200;
  a loop body that starts with at most 200 entries hands at most 200 to the built-ins
  and ends with at most 200. (The vector holds 201 entries only between \<open>push_back\<close> and
  \<open>erase\<close>, which \<open>record_line\<close> models as one step.)
\<close>

theorem history_at_most_200:
  "length (history (main env inp eof)) \<le> 200
   \<and> (\<exists>k \<le> length inp.
        history (main env inp eof)
          = drop (length (filter (\<lambda>l. \<not> isl (parse_command (expand_env env (tokenize l))))
                            (map snd (take k inp))) - 200)
              (filter (\<lambda>l. \<not> isl (parse_command (expand_env env (tokenize l))))
                 (map snd (take k inp))))
   \<and> history (record_line line s)
       = (if 200 < length (history s @ [line]) then tl (history s @ [line])
          else history s @ [line])
   \<and> history (snd (loop_body env oc line s))
       = (if isl (parse_command (expand_env env (tokenize line))) then history s
          else history (record_line line s))
   \<and> (length (history s) \<le> 200
      \<longrightarrow> length (history (record_line line s)) \<le> 200
        \<and> history (record_line line s)
            = drop (length (history s @ [line]) - 200) (history s @ [line])
        \<and> length (history (snd (loop_body env oc line s))) \<le> 200
        \<and> length (history (main_loop env inp eof s)) \<le> 200)"
proof (intro conjI impI)
  show "length (history (main env inp eof)) \<le> 200"
    by (simp add: main_def main_loop_bound)
  from main_loop_history [of "\<lparr>history = [], trace = []\<rparr>" inp env eof]
  show "\<exists>k \<le> length inp.
        history (main env inp eof)
          = drop (length (filter (\<lambda>l. \<not> isl (parse_command (expand_env env (tokenize l))))
                            (map snd (take k inp))) - 200)
              (filter (\<lambda>l. \<not> isl (parse_command (expand_env env (tokenize l))))
                 (map snd (take k inp)))"
    by (simp add: main_def)
  show "history (record_line line s)
       = (if 200 < length (history s @ [line]) then tl (history s @ [line])
          else history s @ [line])"
    by (simp add: record_line_def)
  show "history (snd (loop_body env oc line s))
       = (if isl (parse_command (expand_env env (tokenize line))) then history s
          else history (record_line line s))"
    by (rule loop_body_history)
next
  assume len: "length (history s) \<le> 200"
  then show "length (history (record_line line s)) \<le> 200"
    by (simp add: record_line_def)
  from len show "history (record_line line s)
            = drop (length (history s @ [line]) - 200) (history s @ [line])"
    by (rule record_line_history)
  from len show "length (history (snd (loop_body env oc line s))) \<le> 200"
    by (rule loop_body_bound)
  from len show "length (history (main_loop env inp eof s)) \<le> 200"
    by (rule main_loop_bound)
qed

text \<open>
  Claim C10 with a full history of 200 lines: \<open>pwd\<close> is recorded and the oldest line
  leaves; \<open>pwd <\<close> is a syntax error and the history stays.
\<close>

theorem history_at_most_200_witness:
  "history (record_line ''pwd'' \<lparr>history = replicate 200 ''ls'', trace = []\<rparr>)
     = replicate 199 ''ls'' @ [''pwd'']
   \<and> length (history (record_line ''pwd'' \<lparr>history = replicate 200 ''ls'', trace = []\<rparr>)) = 200
   \<and> history (snd (loop_body []
        \<lparr>prompt_cwd = None, pwd_cwd = Some ''/tmp'', chdir_ok = True, fork_ok = True,
         open_in_ok = True, dup2_in_ok = True, open_out_ok = True, dup2_out_ok = True,
         exec_result = Some (Exited 0), waitpid_ok = True\<rparr>
        ''pwd'' \<lparr>history = replicate 200 ''ls'', trace = []\<rparr>))
     = replicate 199 ''ls'' @ [''pwd'']
   \<and> history (snd (loop_body []
        \<lparr>prompt_cwd = None, pwd_cwd = Some ''/tmp'', chdir_ok = True, fork_ok = True,
         open_in_ok = True, dup2_in_ok = True, open_out_ok = True, dup2_out_ok = True,
         exec_result = Some (Exited 0), waitpid_ok = True\<rparr>
        ''pwd <'' \<lparr>history = replicate 200 ''ls'', trace = []\<rparr>))
     = replicate 200 ''ls''"
proof -
  have parsed: "\<not> isl (parse_command (expand_env [] (tokenize ''pwd'')))"
    by (simp add: parse_command_def empty_Command_def expand_env_def expand_token_char
          expand_token_Nil tokenize_def tokenize_loop.simps isspace_def dquote_def squote_def)
  have failed: "isl (parse_command (expand_env [] (tokenize ''pwd <'')))"
    by (simp add: parse_command_def empty_Command_def expand_env_def expand_token_char
          expand_token_Nil tokenize_def tokenize_loop.simps isspace_def dquote_def squote_def)
  have tail: "tl (replicate 200 ''ls'') = replicate 199 ''ls''"
    by simp
  from
    history_at_most_200 [where env = "[]" and inp = "[]"
      and eof = "\<lparr>prompt_cwd = None, pwd_cwd = Some ''/tmp'', chdir_ok = True, fork_ok = True,
         open_in_ok = True, dup2_in_ok = True, open_out_ok = True, dup2_out_ok = True,
         exec_result = Some (Exited 0), waitpid_ok = True\<rparr>"
      and oc = "\<lparr>prompt_cwd = None, pwd_cwd = Some ''/tmp'', chdir_ok = True, fork_ok = True,
         open_in_ok = True, dup2_in_ok = True, open_out_ok = True, dup2_out_ok = True,
         exec_result = Some (Exited 0), waitpid_ok = True\<rparr>"
      and line = "''pwd''" and s = "\<lparr>history = replicate 200 ''ls'', trace = []\<rparr>"]
    history_at_most_200 [where env = "[]" and inp = "[]"
      and eof = "\<lparr>prompt_cwd = None, pwd_cwd = Some ''/tmp'', chdir_ok = True, fork_ok = True,
         open_in_ok = True, dup2_in_ok = True, open_out_ok = True, dup2_out_ok = True,
         exec_result = Some (Exited 0), waitpid_ok = True\<rparr>"
      and oc = "\<lparr>prompt_cwd = None, pwd_cwd = Some ''/tmp'', chdir_ok = True, fork_ok = True,
         open_in_ok = True, dup2_in_ok = True, open_out_ok = True, dup2_out_ok = True,
         exec_result = Some (Exited 0), waitpid_ok = True\<rparr>"
      and line = "''pwd <''" and s = "\<lparr>history = replicate 200 ''ls'', trace = []\<rparr>"]
    parsed failed tail
  show ?thesis
    by (simp add: main_def emit_def make_prompt_def)
qed

end
